theory Spec2Isabelle
  imports Main
begin

section \<open>Python values used by the fragment counter\<close>

text \<open>
  The development embeds \<^verbatim>\<open>get_barcodes\<close> and \<^verbatim>\<open>count\<close> of
  \<^verbatim>\<open>episcanpy/count_matrix/_bld_atac_mtx.py\<close>. A Python \<^verbatim>\<open>str\<close> is a
  \<^typ>\<open>string\<close> whose characters are code points below 256, a Python \<^verbatim>\<open>int\<close> is an
  \<^typ>\<open>int\<close>, and the opened fragments file is the list of its lines in the order the
  file iterator yields them. Every exception the code can raise is a value of \<open>error\<close>.
\<close>

datatype error = IndexError | KeyError | ValueError

text \<open>\<^verbatim>\<open>str.isspace\<close> on one character, for the code points below 256.\<close>

definition isspace :: "char \<Rightarrow> bool" where
  "isspace c = (of_char c \<in> {9, 10, 11, 12, 13, 28, 29, 30, 31, 32, 133, 160 :: nat})"

text \<open>\<^verbatim>\<open>s.strip()\<close>: leading and trailing whitespace removed.\<close>

definition strip :: "string \<Rightarrow> string" where
  "strip s = rev (dropWhile isspace (rev (dropWhile isspace s)))"

text \<open>\<^verbatim>\<open>s.split(sep)\<close> for a separator of one character; the result is never empty.\<close>

fun split :: "char \<Rightarrow> string \<Rightarrow> string list" where
  "split sep [] = [[]]"
| "split sep (c # cs) =
     (if c = sep then [] # split sep cs
      else (case split sep cs of
              [] \<Rightarrow> [[c]]
            | part # parts \<Rightarrow> (c # part) # parts))"

definition tab :: char where
  "tab = CHR 0x09"

text \<open>\<^verbatim>\<open>s.startswith(prefix)\<close>.\<close>

definition startswith :: "string \<Rightarrow> string \<Rightarrow> bool" where
  "startswith s pre = (take (length pre) s = pre)"

text \<open>
  \<^verbatim>\<open>int(s)\<close> on a string: surrounding whitespace is ignored, one sign is allowed, and
  the rest is a non-empty run of decimal digits in which single underscores may separate
  digits. Anything else raises \<^verbatim>\<open>ValueError\<close>. The whitespace \<^verbatim>\<open>int\<close> ignores
  is narrower than that of \<^verbatim>\<open>str.strip\<close>: the separators U+001C to U+001F are not
  part of it, so a numeral followed by U+001F raises. A numeral of more than
  \<^verbatim>\<open>sys.get_int_max_str_digits()\<close> digits raises as well; the limit is taken at the
  interpreter's default of 4300, and counts every digit, leading zeros included, and
  neither the sign nor the underscores nor the whitespace.
\<close>

definition int_space :: "char \<Rightarrow> bool" where
  "int_space c = (of_char c \<in> {9, 10, 11, 12, 13, 32, 133, 160 :: nat})"

definition int_max_str_digits :: nat where
  "int_max_str_digits = 4300"

definition isdigit :: "char \<Rightarrow> bool" where
  "isdigit c = (48 \<le> (of_char c :: nat) \<and> (of_char c :: nat) \<le> 57)"

definition digit_val :: "char \<Rightarrow> int" where
  "digit_val c = int (of_char c) - 48"

fun digits_ok :: "string \<Rightarrow> bool" where
  "digits_ok [] = False"
| "digits_ok [c] = isdigit c"
| "digits_ok (c # d # cs) =
     (isdigit c \<and> (if d = CHR ''_'' then digits_ok cs else digits_ok (d # cs)))"

definition digits_val :: "string \<Rightarrow> int" where
  "digits_val s = fold (\<lambda>c n. 10 * n + digit_val c) (filter (\<lambda>c. c \<noteq> CHR ''_'') s) 0"

definition unsigned_int :: "string \<Rightarrow> error + int" where
  "unsigned_int s =
     (if digits_ok s \<and> length (filter isdigit s) \<le> int_max_str_digits
      then Inr (digits_val s) else Inl ValueError)"

definition py_int :: "string \<Rightarrow> error + int" where
  "py_int s =
     (case rev (dropWhile int_space (rev (dropWhile int_space s))) of
        [] \<Rightarrow> Inl ValueError
      | c # cs \<Rightarrow>
          if c = CHR ''-'' then map_sum id uminus (unsigned_int cs)
          else if c = CHR ''+'' then unsigned_int cs
          else unsigned_int (c # cs))"


section \<open>Count tables\<close>

text \<open>
  With \<^verbatim>\<open>fast=True\<close> the table \<^verbatim>\<open>count_mtx\<close> is a list of
  \<^verbatim>\<open>len(valid_bcs)\<close> separately allocated rows of \<^verbatim>\<open>len(features)\<close> zeros, and
  \<^verbatim>\<open>count_mtx[i][j] += 1\<close> raises \<^verbatim>\<open>IndexError\<close> outside of it.
\<close>

definition dense_zeros :: "nat \<Rightarrow> nat \<Rightarrow> int list list" where
  "dense_zeros n_bcs n_features = replicate n_bcs (replicate n_features 0)"

definition dense_increment :: "int list list \<Rightarrow> nat \<Rightarrow> nat \<Rightarrow> error + int list list" where
  "dense_increment m i j =
     (if i < length m then
        (if j < length (m ! i) then Inr (m[i := (m ! i)[j := m ! i ! j + 1]])
         else Inl IndexError)
      else Inl IndexError)"

text \<open>
  Modelled from the spec: \<^verbatim>\<open>scipy.sparse.lil_matrix\<close>, which the repository imports
  and does not define, as the spec describes the sparse accumulator: a list-of-lists
  structure of a fixed shape that holds only the touched cells, here one list of
  (column, value) entries per row in increasing column order. An absent cell reads as
  zero, an increment outside the shape raises \<^verbatim>\<open>IndexError\<close>, and the values, floats
  in the library, are the integers they represent.
\<close>

record lil_matrix =
  n_rows :: nat
  n_cols :: nat
  entries :: "(nat \<times> int) list list"

definition lil_zeros :: "nat \<Rightarrow> nat \<Rightarrow> lil_matrix" where
  "lil_zeros n_bcs n_features =
     \<lparr>n_rows = n_bcs, n_cols = n_features, entries = replicate n_bcs []\<rparr>"

fun row_increment :: "nat \<Rightarrow> (nat \<times> int) list \<Rightarrow> (nat \<times> int) list" where
  "row_increment j [] = [(j, 1)]"
| "row_increment j ((k, v) # es) =
     (if j < k then (j, 1) # (k, v) # es
      else if j = k then (k, v + 1) # es
      else (k, v) # row_increment j es)"

definition lil_increment :: "lil_matrix \<Rightarrow> nat \<Rightarrow> nat \<Rightarrow> error + lil_matrix" where
  "lil_increment l i j =
     (if i < n_rows l \<and> i < length (entries l) \<and> j < n_cols l
      then Inr (l\<lparr>entries := (entries l)[i := row_increment j (entries l ! i)]\<rparr>)
      else Inl IndexError)"

fun row_get :: "(nat \<times> int) list \<Rightarrow> nat \<Rightarrow> int" where
  "row_get [] j = 0"
| "row_get ((k, v) # es) j = (if j = k then v else row_get es j)"

text \<open>
  The table of one run is the dense one or the sparse one, as \<^verbatim>\<open>fast\<close> chooses
  when it is created; each increment of the source goes to the one that exists.
\<close>

datatype table = Dense "int list list" | Sparse lil_matrix

definition new_table :: "bool \<Rightarrow> nat \<Rightarrow> nat \<Rightarrow> table" where
  "new_table fast n_bcs n_features =
     (if fast then Dense (dense_zeros n_bcs n_features)
      else Sparse (lil_zeros n_bcs n_features))"

fun increment :: "table \<Rightarrow> nat \<Rightarrow> nat \<Rightarrow> error + table" where
  "increment (Dense m) i j = map_sum id Dense (dense_increment m i j)"
| "increment (Sparse l) i j = map_sum id Sparse (lil_increment l i j)"

text \<open>Reading a table: its number of rows and the value of a cell inside its shape.\<close>

fun table_rows :: "table \<Rightarrow> nat" where
  "table_rows (Dense m) = length m"
| "table_rows (Sparse l) = n_rows l"

fun cell :: "table \<Rightarrow> nat \<Rightarrow> nat \<Rightarrow> int" where
  "cell (Dense m) i j = m ! i ! j"
| "cell (Sparse l) i j = row_get (entries l ! i) j"

text \<open>
  Modelled from the spec: the conversion to the compressed-sparse-row form
  \<open>(row_ptr, col_idx, values)\<close>, which the callers leave to the library
  (\<^verbatim>\<open>csr_matrix(ct_mtx)\<close> for the dense table, \<^verbatim>\<open>ct_mtx.tocsr()\<close> for the sparse
  one), as the standard layout with one row per barcode: the non-zero cells row by row,
  columns increasing, and the running number of cells before each row.
\<close>

definition dense_row_entries :: "int list \<Rightarrow> (nat \<times> int) list" where
  "dense_row_entries row = filter (\<lambda>(j, v). v \<noteq> 0) (enumerate 0 row)"

fun table_entries :: "table \<Rightarrow> (nat \<times> int) list list" where
  "table_entries (Dense m) = map dense_row_entries m"
| "table_entries (Sparse l) = entries l"

fun row_ptr :: "nat \<Rightarrow> (nat \<times> int) list list \<Rightarrow> nat list" where
  "row_ptr n [] = [n]"
| "row_ptr n (es # ess) = n # row_ptr (n + length es) ess"

definition to_csr :: "table \<Rightarrow> nat list \<times> nat list \<times> int list" where
  "to_csr t =
     (row_ptr 0 (table_entries t),
      concat (map (map fst) (table_entries t)),
      concat (map (map snd) (table_entries t)))"

section \<open>The scan\<close>

type_synonym feature = "string \<times> int \<times> int"

definition fchrom :: "feature \<Rightarrow> string" where
  "fchrom f = fst f"

definition fstart :: "feature \<Rightarrow> int" where
  "fstart f = fst (snd f)"

definition fstop :: "feature \<Rightarrow> int" where
  "fstop f = snd (snd f)"

text \<open>
  \<^verbatim>\<open>chrom_mapping\<close>: each chromosome name of the feature list gets the next unused
  number the first time it is met.
\<close>

fun chrom_mapping_loop ::
  "string list \<Rightarrow> (string \<rightharpoonup> nat) \<Rightarrow> nat \<Rightarrow> (string \<rightharpoonup> nat)" where
  "chrom_mapping_loop [] chrom_mapping c = chrom_mapping"
| "chrom_mapping_loop (chrom # chroms) chrom_mapping c =
     (if chrom_mapping chrom = None
      then chrom_mapping_loop chroms (chrom_mapping(chrom \<mapsto> c)) (c + 1)
      else chrom_mapping_loop chroms chrom_mapping c)"

definition build_chrom_mapping :: "feature list \<Rightarrow> (string \<rightharpoonup> nat)" where
  "build_chrom_mapping features = chrom_mapping_loop (map fchrom features) Map.empty 0"

text \<open>
  \<^verbatim>\<open>bc_mapping = {bc: i for i, bc in enumerate(valid_bcs)}\<close>: a later position
  overwrites an earlier one.
\<close>

definition build_bc_mapping :: "string list \<Rightarrow> (string \<rightharpoonup> nat)" where
  "build_bc_mapping valid_bcs =
     fold (\<lambda>(i, bc) bc_mapping. bc_mapping(bc \<mapsto> i)) (enumerate 0 valid_bcs) Map.empty"

text \<open>\<^verbatim>\<open>chrom_mapping[features[idx][0]]\<close>, with both lookups able to raise.\<close>

definition chrom_rank :: "(string \<rightharpoonup> nat) \<Rightarrow> feature list \<Rightarrow> nat \<Rightarrow> error + nat" where
  "chrom_rank chrom_mapping features idx =
     (if idx < length features then
        (case chrom_mapping (fchrom (features ! idx)) of
           None \<Rightarrow> Inl KeyError
         | Some r \<Rightarrow> Inr r)
      else Inl IndexError)"

text \<open>The loop that moves the cursor past features on earlier chromosomes.\<close>

function skip_chroms :: "(string \<rightharpoonup> nat) \<Rightarrow> feature list \<Rightarrow> nat \<Rightarrow> nat \<Rightarrow> error + nat" where
  "skip_chroms chrom_mapping features chrom_int feature_idx =
     (if feature_idx < length features then
        (case chrom_rank chrom_mapping features feature_idx of
           Inl e \<Rightarrow> Inl e
         | Inr r \<Rightarrow>
             if chrom_int > r
             then skip_chroms chrom_mapping features chrom_int (feature_idx + 1)
             else Inr feature_idx)
      else Inr feature_idx)"
  by pat_completeness auto
termination
  by (relation "measure (\<lambda>(chrom_mapping, features, chrom_int, feature_idx).
        length features - feature_idx)") auto

declare skip_chroms.simps [simp del]

text \<open>
  The loop that moves the cursor past features of the fragment's chromosome that end
  before the fragment starts.
\<close>

function skip_features ::
  "(string \<rightharpoonup> nat) \<Rightarrow> feature list \<Rightarrow> nat \<Rightarrow> int \<Rightarrow> nat \<Rightarrow> error + nat" where
  "skip_features chrom_mapping features chrom_int start feature_idx =
     (if feature_idx < length features \<and> start > fstop (features ! feature_idx) then
        (case chrom_rank chrom_mapping features feature_idx of
           Inl e \<Rightarrow> Inl e
         | Inr r \<Rightarrow>
             if chrom_int = r
             then skip_features chrom_mapping features chrom_int start (feature_idx + 1)
             else Inr feature_idx)
      else Inr feature_idx)"
  by pat_completeness auto
termination
  by (relation "measure (\<lambda>(chrom_mapping, features, chrom_int, start, feature_idx).
        length features - feature_idx)") auto

declare skip_features.simps [simp del]

text \<open>\<^verbatim>\<open>count_mtx[bc_mapping[bc]][idx] += 1\<close>, on whichever table exists.\<close>

definition add_hit :: "(string \<rightharpoonup> nat) \<Rightarrow> string \<Rightarrow> nat \<Rightarrow> table \<Rightarrow> error + table" where
  "add_hit bc_mapping bc idx count_mtx =
     (case bc_mapping bc of
        None \<Rightarrow> Inl KeyError
      | Some i \<Rightarrow> increment count_mtx i idx)"

text \<open>
  The follow-up loop: from \<open>tmp_idx\<close> on, one hit for each feature that overlaps the
  fragment on its chromosome, up to the first feature that does not.
\<close>

function follow_up ::
  "(string \<rightharpoonup> nat) \<Rightarrow> (string \<rightharpoonup> nat) \<Rightarrow> feature list \<Rightarrow> string \<Rightarrow> nat \<Rightarrow> int \<Rightarrow> int \<Rightarrow>
   nat \<Rightarrow> table \<Rightarrow> error + table" where
  "follow_up chrom_mapping bc_mapping features bc chrom_int start stop tmp_idx count_mtx =
     (if tmp_idx < length features then
        (case chrom_rank chrom_mapping features tmp_idx of
           Inl e \<Rightarrow> Inl e
         | Inr r \<Rightarrow>
             if \<not> (stop < fstart (features ! tmp_idx) \<or> start > fstop (features ! tmp_idx))
                \<and> chrom_int = r
             then (case add_hit bc_mapping bc tmp_idx count_mtx of
                     Inl e \<Rightarrow> Inl e
                   | Inr count_mtx' \<Rightarrow>
                       follow_up chrom_mapping bc_mapping features bc chrom_int start stop
                         (tmp_idx + 1) count_mtx')
             else Inr count_mtx)
      else Inr count_mtx)"
  by pat_completeness auto
termination
  by (relation "measure (\<lambda>(chrom_mapping, bc_mapping, features, bc, chrom_int, start,
        stop, tmp_idx, count_mtx). length features - tmp_idx)") auto

declare follow_up.simps [simp del]

text \<open>The two identical \<^verbatim>\<open># overlap\<close> blocks: a hit at the cursor, then the follow-up.\<close>

definition overlap ::
  "(string \<rightharpoonup> nat) \<Rightarrow> (string \<rightharpoonup> nat) \<Rightarrow> feature list \<Rightarrow> string \<Rightarrow> nat \<Rightarrow> int \<Rightarrow> int \<Rightarrow>
   nat \<Rightarrow> table \<Rightarrow> error + table" where
  "overlap chrom_mapping bc_mapping features bc chrom_int start stop feature_idx count_mtx =
     (case add_hit bc_mapping bc feature_idx count_mtx of
        Inl e \<Rightarrow> Inl e
      | Inr count_mtx' \<Rightarrow>
          follow_up chrom_mapping bc_mapping features bc chrom_int start stop
            (feature_idx + 1) count_mtx')"

text \<open>How one pass through the loop body ends: at its end or a \<^verbatim>\<open>continue\<close>, or at a \<^verbatim>\<open>break\<close>.\<close>

datatype ctl = Continue | Break

text \<open>
  The second half of the loop body, from \<^verbatim>\<open>start = int(line_split[1])\<close> on: the
  comparison of the fragment with the feature under the cursor.
\<close>

definition intervals ::
  "(string \<rightharpoonup> nat) \<Rightarrow> (string \<rightharpoonup> nat) \<Rightarrow> feature list \<Rightarrow> string list \<Rightarrow> string \<Rightarrow> nat \<Rightarrow>
   nat \<Rightarrow> table \<Rightarrow> error + (ctl \<times> nat \<times> table)" where
  "intervals chrom_mapping bc_mapping features line_split bc chrom_int feature_idx count_mtx =
     (case py_int (line_split ! 1) of
        Inl e \<Rightarrow> Inl e
      | Inr start \<Rightarrow>
     (case py_int (line_split ! 2) of
        Inl e \<Rightarrow> Inl e
      | Inr stop \<Rightarrow>
          if \<not> feature_idx < length features then Inl IndexError
          else if stop < fstart (features ! feature_idx)
          then Inr (Continue, feature_idx, count_mtx)
          else if start > fstop (features ! feature_idx) then
            (case skip_features chrom_mapping features chrom_int start feature_idx of
               Inl e \<Rightarrow> Inl e
             | Inr feature_idx' \<Rightarrow>
                 if feature_idx' \<ge> length features
                 then Inr (Break, feature_idx', count_mtx)
                 else
                   (case chrom_rank chrom_mapping features feature_idx' of
                      Inl e \<Rightarrow> Inl e
                    | Inr r \<Rightarrow>
                        if chrom_int \<noteq> r then Inr (Continue, feature_idx', count_mtx)
                        else if \<not> stop < fstart (features ! feature_idx') then
                          (case overlap chrom_mapping bc_mapping features bc chrom_int
                                  start stop feature_idx' count_mtx of
                             Inl e \<Rightarrow> Inl e
                           | Inr count_mtx' \<Rightarrow> Inr (Continue, feature_idx', count_mtx'))
                        else Inr (Continue, feature_idx', count_mtx)))
          else
            (case overlap chrom_mapping bc_mapping features bc chrom_int start stop
                    feature_idx count_mtx of
               Inl e \<Rightarrow> Inl e
             | Inr count_mtx' \<Rightarrow> Inr (Continue, feature_idx, count_mtx'))))"

text \<open>
  The loop body from \<^verbatim>\<open>bc = line_split[3]\<close> on, for the fields of one line: the
  barcode and chromosome filters, the chromosome comparison with the cursor, then the
  interval comparison.
\<close>

definition process ::
  "feature list \<Rightarrow> string list \<Rightarrow> (string \<rightharpoonup> nat) \<Rightarrow> (string \<rightharpoonup> nat) \<Rightarrow> nat \<Rightarrow> table \<Rightarrow>
   string list \<Rightarrow> error + (ctl \<times> nat \<times> table)" where
  "process features valid_bcs chrom_mapping bc_mapping feature_idx count_mtx line_split =
     (if \<not> 3 < length line_split then Inl IndexError
      else if line_split ! 3 \<notin> set valid_bcs then Inr (Continue, feature_idx, count_mtx)
      else
        (case chrom_mapping (line_split ! 0) of
           None \<Rightarrow> Inr (Continue, feature_idx, count_mtx)
         | Some chrom_int \<Rightarrow>
             (case chrom_rank chrom_mapping features feature_idx of
                Inl e \<Rightarrow> Inl e
              | Inr r \<Rightarrow>
                  if chrom_int < r then Inr (Continue, feature_idx, count_mtx)
                  else if chrom_int > r then
                    (case skip_chroms chrom_mapping features chrom_int feature_idx of
                       Inl e \<Rightarrow> Inl e
                     | Inr feature_idx' \<Rightarrow>
                         if feature_idx' \<ge> length features
                         then Inr (Break, feature_idx', count_mtx)
                         else intervals chrom_mapping bc_mapping features line_split
                                (line_split ! 3) chrom_int feature_idx' count_mtx)
                  else intervals chrom_mapping bc_mapping features line_split
                         (line_split ! 3) chrom_int feature_idx count_mtx)))"

section \<open>Reading lines\<close>

text \<open>
  The first half of the loop body, shared by \<^verbatim>\<open>get_barcodes\<close> and \<^verbatim>\<open>count\<close>:
  \<^verbatim>\<open>use_strip\<close> is \<^verbatim>\<open>None\<close> until the first data line, which is always stripped
  and decides, by having four fields or not, whether the later lines are.
\<close>

definition read_line :: "bool option \<Rightarrow> string \<Rightarrow> string list \<times> bool option" where
  "read_line use_strip line =
     (case use_strip of
        None \<Rightarrow> (split tab (strip line), Some (length (split tab (strip line)) = 4))
      | Some False \<Rightarrow> (split tab line, Some False)
      | Some True \<Rightarrow> (split tab (strip line), Some True))"

section \<open>count\<close>

record scan_state =
  check_for_comments :: bool
  use_strip :: "bool option"
  feature_idx :: nat
  count_mtx :: table

definition count_body ::
  "feature list \<Rightarrow> string list \<Rightarrow> (string \<rightharpoonup> nat) \<Rightarrow> (string \<rightharpoonup> nat) \<Rightarrow> string \<Rightarrow>
   scan_state \<Rightarrow> string \<Rightarrow> error + (ctl \<times> scan_state)" where
  "count_body features valid_bcs chrom_mapping bc_mapping comment s line =
     (if check_for_comments s \<and> startswith line comment then Inr (Continue, s)
      else
        (case read_line (use_strip s) line of
           (line_split, use_strip') \<Rightarrow>
             (case process features valid_bcs chrom_mapping bc_mapping
                     (feature_idx s) (count_mtx s) line_split of
                Inl e \<Rightarrow> Inl e
              | Inr (c, feature_idx', count_mtx') \<Rightarrow>
                  Inr (c, \<lparr>check_for_comments = False, use_strip = use_strip',
                           feature_idx = feature_idx', count_mtx = count_mtx'\<rparr>))))"

text \<open>
  \<^verbatim>\<open>for line in fh\<close>: the result says whether the loop ran to the end of the file
  (\<open>Continue\<close>) or left by \<^verbatim>\<open>break\<close>, and gives the state it ended in.
\<close>

fun count_loop ::
  "feature list \<Rightarrow> string list \<Rightarrow> (string \<rightharpoonup> nat) \<Rightarrow> (string \<rightharpoonup> nat) \<Rightarrow> string \<Rightarrow>
   scan_state \<Rightarrow> string list \<Rightarrow> error + (ctl \<times> scan_state)" where
  "count_loop features valid_bcs chrom_mapping bc_mapping comment s [] = Inr (Continue, s)"
| "count_loop features valid_bcs chrom_mapping bc_mapping comment s (line # fh) =
     (case count_body features valid_bcs chrom_mapping bc_mapping comment s line of
        Inl e \<Rightarrow> Inl e
      | Inr (Break, s') \<Rightarrow> Inr (Break, s')
      | Inr (Continue, s') \<Rightarrow>
          count_loop features valid_bcs chrom_mapping bc_mapping comment s' fh)"

definition count_init :: "feature list \<Rightarrow> string list \<Rightarrow> bool \<Rightarrow> scan_state" where
  "count_init features valid_bcs fast =
     \<lparr>check_for_comments = True, use_strip = None, feature_idx = 0,
      count_mtx = new_table fast (length valid_bcs) (length features)\<rparr>"

definition count_run ::
  "string list \<Rightarrow> feature list \<Rightarrow> string list \<Rightarrow> bool \<Rightarrow> string \<Rightarrow> error + (ctl \<times> scan_state)" where
  "count_run fragments features valid_bcs fast comment =
     count_loop features valid_bcs (build_chrom_mapping features) (build_bc_mapping valid_bcs)
       comment (count_init features valid_bcs fast) fragments"

definition count ::
  "string list \<Rightarrow> feature list \<Rightarrow> string list \<Rightarrow> bool \<Rightarrow> string \<Rightarrow> error + table" where
  "count fragments features valid_bcs fast comment =
     map_sum id (\<lambda>(c, s). count_mtx s) (count_run fragments features valid_bcs fast comment)"

section \<open>get_barcodes\<close>

record barcode_state =
  bs_check_for_comments :: bool
  bs_use_strip :: "bool option"
  barcodes :: "string set"

definition get_barcodes_body :: "string \<Rightarrow> barcode_state \<Rightarrow> string \<Rightarrow> error + barcode_state" where
  "get_barcodes_body comment s line =
     (if bs_check_for_comments s \<and> startswith line comment then Inr s
      else
        (case read_line (bs_use_strip s) line of
           (line_split, use_strip') \<Rightarrow>
             if \<not> 3 < length line_split then Inl IndexError
             else Inr \<lparr>bs_check_for_comments = False, bs_use_strip = use_strip',
                       barcodes = insert (line_split ! 3) (barcodes s)\<rparr>))"

fun get_barcodes_loop :: "string \<Rightarrow> barcode_state \<Rightarrow> string list \<Rightarrow> error + barcode_state" where
  "get_barcodes_loop comment s [] = Inr s"
| "get_barcodes_loop comment s (line # fh) =
     (case get_barcodes_body comment s line of
        Inl e \<Rightarrow> Inl e
      | Inr s' \<Rightarrow> get_barcodes_loop comment s' fh)"

text \<open>
  The result is the set of barcodes: the order in which \<^verbatim>\<open>list(barcodes)\<close> lists a
  set is not fixed by the language.
\<close>

definition get_barcodes :: "string list \<Rightarrow> string \<Rightarrow> error + string set" where
  "get_barcodes fragments comment =
     map_sum id barcodes
       (get_barcodes_loop comment
          \<lparr>bs_check_for_comments = True, bs_use_strip = None, barcodes = {}\<rparr> fragments)"


section \<open>Notions used to state the properties\<close>

subsection \<open>The data lines of a stream\<close>

text \<open>
  Both loops compute \<^verbatim>\<open>line_split\<close> from the line and from \<^verbatim>\<open>check_for_comments\<close>
  and \<^verbatim>\<open>use_strip\<close> alone. \<open>read_lines\<close> is that part of the loops run over a whole
  stream: the fields of every line that is not skipped as a leading comment.
\<close>

fun read_lines :: "string \<Rightarrow> bool \<Rightarrow> bool option \<Rightarrow> string list \<Rightarrow> string list list" where
  "read_lines comment checking stripping [] = []"
| "read_lines comment checking stripping (line # fh) =
     (if checking \<and> startswith line comment
      then read_lines comment checking stripping fh
      else (case read_line stripping line of
              (line_split, stripping') \<Rightarrow>
                line_split # read_lines comment False stripping' fh))"

definition line_splits :: "string \<Rightarrow> string list \<Rightarrow> string list list" where
  "line_splits comment fragments = read_lines comment True None fragments"

text \<open>The rest of the loop of \<^verbatim>\<open>count\<close>, run over the fields of the data lines.\<close>

fun scan ::
  "feature list \<Rightarrow> string list \<Rightarrow> (string \<rightharpoonup> nat) \<Rightarrow> (string \<rightharpoonup> nat) \<Rightarrow> nat \<Rightarrow> table \<Rightarrow>
   string list list \<Rightarrow> error + (ctl \<times> nat \<times> table)" where
  "scan features valid_bcs chrom_mapping bc_mapping idx tbl [] = Inr (Continue, idx, tbl)"
| "scan features valid_bcs chrom_mapping bc_mapping idx tbl (line_split # rest) =
     (case process features valid_bcs chrom_mapping bc_mapping idx tbl line_split of
        Inl e \<Rightarrow> Inl e
      | Inr (Break, idx', tbl') \<Rightarrow> Inr (Break, idx', tbl')
      | Inr (Continue, idx', tbl') \<Rightarrow>
          scan features valid_bcs chrom_mapping bc_mapping idx' tbl' rest)"

text \<open>A line of a fragments file, as \<^verbatim>\<open>"\t".join(fields) + "\n"\<close>.\<close>

fun join :: "string \<Rightarrow> string list \<Rightarrow> string" where
  "join sep [] = []"
| "join sep [part] = part"
| "join sep (part # parts) = part @ sep @ join sep parts"

definition tsv_line :: "string list \<Rightarrow> string" where
  "tsv_line parts = join [tab] parts @ [CHR 0x0A]"

subsection \<open>Fragments and overlap\<close>

text \<open>
  A fragment is (chromosome, start, stop, barcode). The fields of a data line denote one
  when there are at least four of them and the second and third are read by \<^verbatim>\<open>int\<close>.
\<close>

type_synonym fragment = "string \<times> int \<times> int \<times> string"

definition fragment_of :: "string list \<Rightarrow> fragment option" where
  "fragment_of line_split =
     (if 3 < length line_split then
        (case (py_int (line_split ! 1), py_int (line_split ! 2)) of
           (Inr start, Inr stop) \<Rightarrow> Some (line_split ! 0, start, stop, line_split ! 3)
         | _ \<Rightarrow> None)
      else None)"

text \<open>
  The hits a feature should receive: fragments with a valid barcode, on the feature's
  chromosome, whose closed interval meets the feature's closed interval.
\<close>

fun overlapping :: "string list \<Rightarrow> feature \<Rightarrow> fragment \<Rightarrow> bool" where
  "overlapping valid_bcs f (chrom, start, stop, bc) =
     (bc \<in> set valid_bcs \<and> chrom = fchrom f \<and> fstart f \<le> stop \<and> start \<le> fstop f)"

text \<open>The total of a feature's column over the first \<open>n\<close> rows of a table.\<close>

definition column_total :: "table \<Rightarrow> nat \<Rightarrow> nat \<Rightarrow> int" where
  "column_total t n j = sum_list (map (\<lambda>i. cell t i j) [0..<n])"

subsection \<open>The required order of the inputs\<close>

text \<open>
  Features are sorted by chromosome, start and stop: every chromosome is one block of
  the list, and inside a block the pairs (start, stop) do not decrease.
\<close>

fun grouped :: "string list \<Rightarrow> bool" where
  "grouped [] = True"
| "grouped [c] = True"
| "grouped (c # d # cs) = ((c = d \<or> c \<notin> set (d # cs)) \<and> grouped (d # cs))"

definition features_ordered :: "feature list \<Rightarrow> bool" where
  "features_ordered features =
     (grouped (map fchrom features) \<and>
      sorted_wrt (\<lambda>f g. fchrom f = fchrom g \<longrightarrow>
                    fstart f < fstart g \<or> (fstart f = fstart g \<and> fstop f \<le> fstop g))
        features)"

text \<open>
  No feature ends before both an earlier and a later feature of its chromosome end: the
  stop of every feature is at least the stops of the features of its chromosome before
  it, or at least the stops of those after it.
\<close>

fun stops_bracketed_from :: "feature list \<Rightarrow> feature list \<Rightarrow> bool" where
  "stops_bracketed_from earlier [] = True"
| "stops_bracketed_from earlier (f # later) =
     ((list_all (\<lambda>g. fchrom g = fchrom f \<longrightarrow> fstop g \<le> fstop f) earlier \<or>
       list_all (\<lambda>g. fchrom g = fchrom f \<longrightarrow> fstop g \<le> fstop f) later) \<and>
      stops_bracketed_from (earlier @ [f]) later)"

definition stops_bracketed :: "feature list \<Rightarrow> bool" where
  "stops_bracketed features = stops_bracketed_from [] features"

text \<open>
  Fragments are sorted by the number of their chromosome in \<^verbatim>\<open>chrom_mapping\<close>, then
  by start; a fragment on a chromosome without a number may stand anywhere.
\<close>

fun fragment_le :: "(string \<rightharpoonup> nat) \<Rightarrow> fragment \<Rightarrow> fragment \<Rightarrow> bool" where
  "fragment_le chrom_mapping (chrom, start, stop, bc) (chrom', start', stop', bc') =
     (case (chrom_mapping chrom, chrom_mapping chrom') of
        (Some r, Some r') \<Rightarrow> r < r' \<or> (r = r' \<and> start \<le> start')
      | _ \<Rightarrow> True)"

definition fragments_ordered :: "(string \<rightharpoonup> nat) \<Rightarrow> fragment list \<Rightarrow> bool" where
  "fragments_ordered chrom_mapping frags = sorted_wrt (fragment_le chrom_mapping) frags"

subsection \<open>A reader that strips every line\<close>

text \<open>
  The reference against which the one-time trim decision is compared: the same loops,
  started with \<^verbatim>\<open>use_strip = True\<close>, so that every line is stripped.
\<close>

definition count_strip_all ::
  "string list \<Rightarrow> feature list \<Rightarrow> string list \<Rightarrow> bool \<Rightarrow> string \<Rightarrow> error + table" where
  "count_strip_all fragments features valid_bcs fast comment =
     map_sum id (\<lambda>(c, s). count_mtx s)
       (count_loop features valid_bcs (build_chrom_mapping features)
          (build_bc_mapping valid_bcs) comment
          ((count_init features valid_bcs fast)\<lparr>use_strip := Some True\<rparr>) fragments)"

definition get_barcodes_strip_all :: "string list \<Rightarrow> string \<Rightarrow> error + string set" where
  "get_barcodes_strip_all fragments comment =
     map_sum id barcodes
       (get_barcodes_loop comment
          \<lparr>bs_check_for_comments = True, bs_use_strip = Some True, barcodes = {}\<rparr> fragments)"

text \<open>
  Streams on which the decision cannot matter: the first data line has four fields when
  stripped, or every later line starts with a character that is not whitespace and has
  at least five fields when stripped.
\<close>

definition starts_with_space :: "string \<Rightarrow> bool" where
  "starts_with_space line = (case line of [] \<Rightarrow> False | c # cs \<Rightarrow> isspace c)"

definition trim_safe :: "string \<Rightarrow> string list \<Rightarrow> bool" where
  "trim_safe comment fragments =
     (case dropWhile (\<lambda>line. startswith line comment) fragments of
        [] \<Rightarrow> True
      | first # rest \<Rightarrow>
          length (split tab (strip first)) = 4 \<or>
          list_all (\<lambda>line. \<not> starts_with_space line \<and> 5 \<le> length (split tab (strip line)))
            rest)"

subsection \<open>Well-formed tables\<close>

text \<open>
  A table of the given shape; in a sparse one the entries of a row stand in increasing
  column order.
\<close>

fun table_ok :: "nat \<Rightarrow> nat \<Rightarrow> table \<Rightarrow> bool" where
  "table_ok n_bcs n_features (Dense m) =
     (length m = n_bcs \<and> list_all (\<lambda>row. length row = n_features) m)"
| "table_ok n_bcs n_features (Sparse l) =
     (n_rows l = n_bcs \<and> n_cols l = n_features \<and> length (entries l) = n_bcs \<and>
      list_all (\<lambda>es. sorted_wrt (<) (map fst es)) (entries l))"

text \<open>
  A dense and a sparse table that hold the same counts: the same shape, no negative
  count, and in every sparse row exactly the non-zero cells of the dense row.
\<close>

fun same_counts :: "table \<Rightarrow> table \<Rightarrow> bool" where
  "same_counts (Dense m) (Sparse l) =
     (length m = n_rows l \<and>
      list_all (\<lambda>row. length row = n_cols l \<and> list_all (\<lambda>v. 0 \<le> v) row) m \<and>
      entries l = map dense_row_entries m)"
| "same_counts (Dense m) (Dense m') = False"
| "same_counts (Sparse l) t = False"

subsection \<open>Chromosome numbers of features\<close>

text \<open>
  The number of a feature's chromosome, where \<^verbatim>\<open>chrom_mapping\<close> has one, and what the
  scan relies on: every feature has a number, two chromosomes never share one, only
  chromosomes of features have one, and along the feature list the numbers do not
  decrease.
\<close>

definition rank_of :: "(string \<rightharpoonup> nat) \<Rightarrow> feature \<Rightarrow> nat" where
  "rank_of chrom_mapping f = the (chrom_mapping (fchrom f))"

definition ranks_ok :: "(string \<rightharpoonup> nat) \<Rightarrow> feature list \<Rightarrow> bool" where
  "ranks_ok chrom_mapping features =
     ((\<forall>f \<in> set features. chrom_mapping (fchrom f) \<noteq> None) \<and>
      (\<forall>x y r. chrom_mapping x = Some r \<and> chrom_mapping y = Some r \<longrightarrow> x = y) \<and>
      (\<forall>x r. chrom_mapping x = Some r \<longrightarrow> x \<in> fchrom ` set features) \<and>
      sorted_wrt (\<lambda>f g. rank_of chrom_mapping f \<le> rank_of chrom_mapping g) features)"

text \<open>
  Inside a chromosome the starts of the features do not decrease, and of three features
  the middle one does not end before both of the others.
\<close>

definition intervals_ordered :: "feature list \<Rightarrow> bool" where
  "intervals_ordered features =
     (sorted_wrt (\<lambda>f g. fchrom f = fchrom g \<longrightarrow> fstart f \<le> fstart g) features \<and>
      (\<forall>c m k. c < m \<and> m < k \<and> k < length features \<and>
           fchrom (features ! c) = fchrom (features ! m) \<and>
           fchrom (features ! k) = fchrom (features ! m) \<longrightarrow>
           fstop (features ! c) \<le> fstop (features ! m) \<or>
           fstop (features ! k) \<le> fstop (features ! m)))"

section \<open>The loop of count, line by line and field by field\<close>

lemma count_loop_append:
  "count_loop features valid_bcs cm bcm comment s (pre @ rest) =
     (case count_loop features valid_bcs cm bcm comment s pre of
        Inl e \<Rightarrow> Inl e
      | Inr (Break, s') \<Rightarrow> Inr (Break, s')
      | Inr (Continue, s') \<Rightarrow> count_loop features valid_bcs cm bcm comment s' rest)"
  by (induction pre arbitrary: s) (auto split: sum.splits ctl.splits prod.splits)

lemma scan_append:
  "scan features valid_bcs cm bcm idx tbl (pre @ rest) =
     (case scan features valid_bcs cm bcm idx tbl pre of
        Inl e \<Rightarrow> Inl e
      | Inr (Break, idx', tbl') \<Rightarrow> Inr (Break, idx', tbl')
      | Inr (Continue, idx', tbl') \<Rightarrow> scan features valid_bcs cm bcm idx' tbl' rest)"
  by (induction pre arbitrary: idx tbl) (auto split: sum.splits ctl.splits prod.splits)

lemma count_loop_scan:
  "map_sum id (\<lambda>(c, s'). (c, feature_idx s', count_mtx s'))
     (count_loop features valid_bcs cm bcm comment s fh) =
   scan features valid_bcs cm bcm (feature_idx s) (count_mtx s)
     (read_lines comment (check_for_comments s) (use_strip s) fh)"
proof (induction fh arbitrary: s)
  case Nil
  show ?case by simp
next
  case (Cons line fh)
  show ?case
  proof (cases "check_for_comments s \<and> startswith line comment")
    case True
    then show ?thesis using Cons.IH [of s] by (simp add: count_body_def)
  next
    case False
    then have nc: "(check_for_comments s \<and> startswith line comment) = False" by simp
    obtain line_split us where rl: "read_line (use_strip s) line = (line_split, us)"
      by (cases "read_line (use_strip s) line")
    show ?thesis
    proof (cases "process features valid_bcs cm bcm (feature_idx s) (count_mtx s) line_split")
      case (Inl e)
      with False rl show ?thesis by (auto simp: count_body_def)
    next
      case (Inr res)
      obtain c idx' tbl' where res: "res = (c, idx', tbl')" by (cases res)
      let ?s' = "\<lparr>check_for_comments = False, use_strip = us, feature_idx = idx', count_mtx = tbl'\<rparr>"
      show ?thesis
      proof (cases c)
        case Continue
        with False rl Inr res Cons.IH [of ?s'] show ?thesis
          by (auto simp: count_body_def)
      next
        case Break
        with False rl Inr res show ?thesis by (auto simp: count_body_def)
      qed
    qed
  qed
qed

lemma count_scan:
  "count fragments features valid_bcs fast comment =
   map_sum id (\<lambda>(c, idx, tbl). tbl)
     (scan features valid_bcs (build_chrom_mapping features) (build_bc_mapping valid_bcs) 0
        (new_table fast (length valid_bcs) (length features)) (line_splits comment fragments))"
proof -
  have "map_sum id (\<lambda>(c, idx, tbl). tbl) (map_sum id (\<lambda>(c, s'). (c, feature_idx s', count_mtx s')) r)
        = map_sum id (\<lambda>(c, s). count_mtx s) r" for r :: "error + (ctl \<times> scan_state)"
    by (cases r) (auto split: prod.splits)
  note h = this
  have f: "scan features valid_bcs (build_chrom_mapping features) (build_bc_mapping valid_bcs) 0
        (new_table fast (length valid_bcs) (length features)) (line_splits comment fragments)
      = map_sum id (\<lambda>(c, s'). (c, feature_idx s', count_mtx s'))
          (count_run fragments features valid_bcs fast comment)"
    unfolding count_run_def line_splits_def
    using count_loop_scan [of features valid_bcs "build_chrom_mapping features" "build_bc_mapping valid_bcs" comment
        "count_init features valid_bcs fast" fragments]
    by (simp add: count_init_def)
  show ?thesis unfolding f h count_def ..
qed

section \<open>The cursor only moves forward\<close>

lemma skip_chroms_mono:
  "skip_chroms cm features ci idx = Inr idx' \<Longrightarrow> idx \<le> idx'"
proof (induction cm features ci idx rule: skip_chroms.induct)
  case (1 cm features ci idx)
  from "1.prems" show ?case
    by (subst (asm) skip_chroms.simps) (auto split: if_splits sum.splits dest!: "1.IH")
qed

lemma skip_features_mono:
  "skip_features cm features ci start idx = Inr idx' \<Longrightarrow> idx \<le> idx'"
proof (induction cm features ci start idx rule: skip_features.induct)
  case (1 cm features ci start idx)
  show ?case
  proof (cases "idx < length features \<and> start > fstop (features ! idx)")
    case True
    with "1.prems" "1.IH" show ?thesis
      by (subst (asm) skip_features.simps) (fastforce split: if_splits sum.splits)
  next
    case False
    with "1.prems" show ?thesis
      by (subst (asm) skip_features.simps) (auto split: if_splits sum.splits)
  qed
qed

lemma intervals_idx:
  assumes "intervals cm bcm features line_split bc ci idx tbl = Inr (c, idx', tbl')"
  shows "idx \<le> idx' \<and> (c = Break \<longrightarrow> length features \<le> idx')
         \<and> (c = Continue \<longrightarrow> idx' < length features)"
  using assms unfolding intervals_def
  by (auto split: sum.splits if_splits dest: skip_features_mono)

lemma process_idx:
  assumes "process features valid_bcs cm bcm idx tbl line_split = Inr (c, idx', tbl')"
  shows "idx \<le> idx' \<and> (c = Break \<longrightarrow> length features \<le> idx')
         \<and> (c = Continue \<longrightarrow> idx < length features \<longrightarrow> idx' < length features)"
  using assms unfolding process_def
  by (auto split: sum.splits if_splits option.splits
      dest: skip_chroms_mono intervals_idx order_trans)

lemma scan_idx:
  assumes "scan features valid_bcs cm bcm idx tbl rows = Inr (c, idx', tbl')"
  shows "idx \<le> idx' \<and> (c = Break \<longrightarrow> length features \<le> idx')
         \<and> (c = Continue \<longrightarrow> idx < length features \<longrightarrow> idx' < length features)"
  using assms
proof (induction rows arbitrary: idx tbl)
  case Nil
  then show ?case by simp
next
  case (Cons row rows)
  from Cons.prems obtain c1 idx1 tbl1 where
    p: "process features valid_bcs cm bcm idx tbl row = Inr (c1, idx1, tbl1)"
    by (auto split: sum.splits)
  note pi = process_idx [OF p]
  show ?case
  proof (cases c1)
    case Break
    with Cons.prems p pi show ?thesis by auto
  next
    case Continue
    with Cons.prems p have "scan features valid_bcs cm bcm idx1 tbl1 rows = Inr (c, idx', tbl')"
      by simp
    from Cons.IH [OF this] pi Continue show ?thesis by auto
  qed
qed

lemma count_loop_idx:
  assumes "count_loop features valid_bcs cm bcm comment s fh = Inr (c, s')"
  shows "feature_idx s \<le> feature_idx s' \<and> (c = Break \<longrightarrow> length features \<le> feature_idx s')
         \<and> (c = Continue \<longrightarrow> feature_idx s < length features \<longrightarrow> feature_idx s' < length features)"
proof -
  from count_loop_scan [of features valid_bcs cm bcm comment s fh] assms
  have "scan features valid_bcs cm bcm (feature_idx s) (count_mtx s)
          (read_lines comment (check_for_comments s) (use_strip s) fh)
        = Inr (c, feature_idx s', count_mtx s')"
    by simp
  from scan_idx [OF this] show ?thesis .
qed

text \<open>
  C4. The cursor \<^verbatim>\<open>feature_idx\<close> starts at 0, no pass through the loop body lowers
  it (the follow-up loop works on \<^verbatim>\<open>tmp_idx\<close> and leaves it alone), and after a
  stream that extends a prefix it is at least what it is after the prefix alone.
\<close>

theorem cursor_never_rewound:
  "feature_idx (count_init features valid_bcs fast) = 0 \<and>
   (count_body features valid_bcs chrom_mapping bc_mapping comment s line = Inr (c, s') \<longrightarrow>
      feature_idx s \<le> feature_idx s') \<and>
   (count_run pre features valid_bcs fast comment = Inr (c1, s1) \<longrightarrow>
    count_run (pre @ rest) features valid_bcs fast comment = Inr (c2, s2) \<longrightarrow>
      feature_idx s1 \<le> feature_idx s2)"
proof (intro conjI impI)
  show "feature_idx (count_init features valid_bcs fast) = 0"
    by (simp add: count_init_def)
next
  assume "count_body features valid_bcs chrom_mapping bc_mapping comment s line = Inr (c, s')"
  then have "count_loop features valid_bcs chrom_mapping bc_mapping comment s [line]
             = Inr (c, s')"
    by (cases c) (auto split: sum.splits ctl.splits)
  from count_loop_idx [OF this] show "feature_idx s \<le> feature_idx s'" by simp
next
  assume a: "count_run pre features valid_bcs fast comment = Inr (c1, s1)"
    and b: "count_run (pre @ rest) features valid_bcs fast comment = Inr (c2, s2)"
  show "feature_idx s1 \<le> feature_idx s2"
  proof (cases c1)
    case Break
    with a b show ?thesis by (simp add: count_run_def count_loop_append)
  next
    case Continue
    with a b have "count_loop features valid_bcs (build_chrom_mapping features)
        (build_bc_mapping valid_bcs) comment s1 rest = Inr (c2, s2)"
      by (simp add: count_run_def count_loop_append)
    from count_loop_idx [OF this] show ?thesis by simp
  qed
qed

theorem cursor_never_rewound_witness:
  "count_run [tsv_line [''chr1'', ''50'', ''60'', ''bc1'']]
     [(''chr1'', 0, 10), (''chr1'', 40, 100)] [''bc1''] True ''#''
   = Inr (Continue, \<lparr>check_for_comments = False, use_strip = Some True, feature_idx = 1,
                     count_mtx = Dense [[0, 1]]\<rparr>) \<and>
   count_run ([tsv_line [''chr1'', ''50'', ''60'', ''bc1'']] @ [tsv_line [''chr1'', ''200'', ''210'', ''bc1'']])
     [(''chr1'', 0, 10), (''chr1'', 40, 100)] [''bc1''] True ''#''
   = Inr (Break, \<lparr>check_for_comments = False, use_strip = Some True, feature_idx = 2,
                     count_mtx = Dense [[0, 1]]\<rparr>) \<and>
   feature_idx \<lparr>check_for_comments = False, use_strip = Some True, feature_idx = 1,
                     count_mtx = Dense [[0, 1]]\<rparr> \<le>
   feature_idx \<lparr>check_for_comments = False, use_strip = Some True, feature_idx = 2,
                     count_mtx = Dense [[0, 1]]\<rparr>"
proof -
  have a: "count_run [tsv_line [''chr1'', ''50'', ''60'', ''bc1'']]
     [(''chr1'', 0, 10), (''chr1'', 40, 100)] [''bc1''] True ''#''
   = Inr (Continue, \<lparr>check_for_comments = False, use_strip = Some True, feature_idx = 1,
                     count_mtx = Dense [[0, 1]]\<rparr>)"
    by code_simp
  have b: "count_run ([tsv_line [''chr1'', ''50'', ''60'', ''bc1'']] @ [tsv_line [''chr1'', ''200'', ''210'', ''bc1'']])
     [(''chr1'', 0, 10), (''chr1'', 40, 100)] [''bc1''] True ''#''
   = Inr (Break, \<lparr>check_for_comments = False, use_strip = Some True, feature_idx = 2,
                     count_mtx = Dense [[0, 1]]\<rparr>)"
    by code_simp
  from cursor_never_rewound [where features = "[(''chr1'', 0, 10), (''chr1'', 40, 100)]"
      and valid_bcs = "[''bc1'']" and fast = True and comment = "''#''"
      and pre = "[tsv_line [''chr1'', ''50'', ''60'', ''bc1'']]"
      and rest = "[tsv_line [''chr1'', ''200'', ''210'', ''bc1'']]"
      and ?c1.0 = Continue and ?c2.0 = Break
      and ?s1.0 = "\<lparr>check_for_comments = False, use_strip = Some True, feature_idx = 1,
                     count_mtx = Dense [[0, 1]]\<rparr>"
      and ?s2.0 = "\<lparr>check_for_comments = False, use_strip = Some True, feature_idx = 2,
                     count_mtx = Dense [[0, 1]]\<rparr>"] a b
  show ?thesis by blast
qed

section \<open>The end of the feature list\<close>

text \<open>
  C5. When a run ends with the cursor past the end of a non-empty feature list, it ended
  by \<^verbatim>\<open>break\<close>, and no further line changes its outcome: the same state and the same
  table result for every continuation of the stream. In the scenario of one feature and
  three fragments the table is 1 by 1 with the value 1, on either backend.
\<close>

theorem exhausted_features_end_scan:
  "(count_run pre features valid_bcs fast comment = Inr (c, s) \<longrightarrow>
    features \<noteq> [] \<longrightarrow> length features \<le> feature_idx s \<longrightarrow>
      c = Break \<and>
      count_run (pre @ rest) features valid_bcs fast comment = Inr (Break, s) \<and>
      count (pre @ rest) features valid_bcs fast comment = Inr (count_mtx s)) \<and>
   count [tsv_line [''chr1'', ''50'', ''60'', ''bc1''],
          tsv_line [''chr1'', ''200'', ''210'', ''bc1''],
          tsv_line [''chr2'', ''10'', ''20'', ''bc1'']]
     [(''chr1'', 0, 100)] [''bc1''] True ''#'' = Inr (Dense [[1]]) \<and>
   count [tsv_line [''chr1'', ''50'', ''60'', ''bc1''],
          tsv_line [''chr1'', ''200'', ''210'', ''bc1''],
          tsv_line [''chr2'', ''10'', ''20'', ''bc1'']]
     [(''chr1'', 0, 100)] [''bc1''] False ''#''
     = Inr (Sparse \<lparr>n_rows = 1, n_cols = 1, entries = [[(0, 1)]]\<rparr>)"
proof (intro conjI impI)
  assume run: "count_run pre features valid_bcs fast comment = Inr (c, s)"
    and ne: "features \<noteq> []" and past: "length features \<le> feature_idx s"
  from run have loop: "count_loop features valid_bcs (build_chrom_mapping features)
      (build_bc_mapping valid_bcs) comment (count_init features valid_bcs fast) pre = Inr (c, s)"
    by (simp add: count_run_def)
  from ne have "feature_idx (count_init features valid_bcs fast) < length features"
    by (simp add: count_init_def)
  with count_loop_idx [OF loop] past show c: "c = Break"
    by (cases c) auto
  from run c show r: "count_run (pre @ rest) features valid_bcs fast comment = Inr (Break, s)"
    by (simp add: count_run_def count_loop_append)
  then show "count (pre @ rest) features valid_bcs fast comment = Inr (count_mtx s)"
    by (simp add: count_def)
next
  show "count [tsv_line [''chr1'', ''50'', ''60'', ''bc1''],
          tsv_line [''chr1'', ''200'', ''210'', ''bc1''],
          tsv_line [''chr2'', ''10'', ''20'', ''bc1'']]
     [(''chr1'', 0, 100)] [''bc1''] True ''#'' = Inr (Dense [[1]])"
    by code_simp
next
  show "count [tsv_line [''chr1'', ''50'', ''60'', ''bc1''],
          tsv_line [''chr1'', ''200'', ''210'', ''bc1''],
          tsv_line [''chr2'', ''10'', ''20'', ''bc1'']]
     [(''chr1'', 0, 100)] [''bc1''] False ''#''
     = Inr (Sparse \<lparr>n_rows = 1, n_cols = 1, entries = [[(0, 1)]]\<rparr>)"
    by code_simp
qed

theorem exhausted_features_end_scan_witness:
  "count_run [tsv_line [''chr1'', ''50'', ''60'', ''bc1''],
              tsv_line [''chr1'', ''200'', ''210'', ''bc1'']]
     [(''chr1'', 0, 100)] [''bc1''] True ''#''
   = Inr (Break, \<lparr>check_for_comments = False, use_strip = Some True, feature_idx = 1,
                  count_mtx = Dense [[1]]\<rparr>) \<and>
   count ([tsv_line [''chr1'', ''50'', ''60'', ''bc1''],
           tsv_line [''chr1'', ''200'', ''210'', ''bc1'']] @
          [tsv_line [''chr2'', ''10'', ''20'', ''bc1'']])
     [(''chr1'', 0, 100)] [''bc1''] True ''#'' = Inr (Dense [[1]])"
proof -
  let ?s = "\<lparr>check_for_comments = False, use_strip = Some True, feature_idx = 1,
             count_mtx = Dense [[1]]\<rparr>"
  have run: "count_run [tsv_line [''chr1'', ''50'', ''60'', ''bc1''],
              tsv_line [''chr1'', ''200'', ''210'', ''bc1'']]
     [(''chr1'', 0, 100)] [''bc1''] True ''#'' = Inr (Break, ?s)"
    by code_simp
  have ne: "[(''chr1'', 0, 100)] \<noteq> ([] :: feature list)" by simp
  have past: "length [(''chr1'', 0::int, 100::int)] \<le> feature_idx ?s" by simp
  from exhausted_features_end_scan [where pre = "[tsv_line [''chr1'', ''50'', ''60'', ''bc1''],
              tsv_line [''chr1'', ''200'', ''210'', ''bc1'']]"
      and features = "[(''chr1'', 0, 100)]" and valid_bcs = "[''bc1'']" and fast = True
      and comment = "''#''" and c = Break and s = ?s
      and rest = "[tsv_line [''chr2'', ''10'', ''20'', ''bc1'']]"] run ne past
  show ?thesis by simp
qed

section \<open>The follow-up loop on overlapping features\<close>

text \<open>
  The fragment [145, 145] against the features [100, 150], [140, 160] and [155, 300]:
  the third feature gets no hit.
\<close>

theorem follow_up_counterexample:
  "count [tsv_line [''chr1'', ''145'', ''145'', ''bc1'']]
     [(''chr1'', 100, 150), (''chr1'', 140, 160), (''chr1'', 155, 300)] [''bc1''] True ''#''
   = Inr (Dense [[1, 1, 0]]) \<and>
   count [tsv_line [''chr1'', ''145'', ''145'', ''bc1'']]
     [(''chr1'', 100, 150), (''chr1'', 140, 160), (''chr1'', 155, 300)] [''bc1''] True ''#''
   \<noteq> Inr (Dense [[1, 1, 1]])"
  by code_simp

text \<open>
  C9. The follow-up loop stops at the first feature that does not overlap: the fragment
  [145, 145] meets [100, 150] and [140, 160] and not [155, 300], since 145 < 155, so the
  first two features get one hit each and the third none; the cursor stays at 0. A
  fragment [145, 155] meets all three and each gets one hit, again with the cursor at 0.
\<close>

theorem follow_up_hits_consecutive_overlaps:
  "count_run [tsv_line [''chr1'', ''145'', ''145'', ''bc1'']]
     [(''chr1'', 100, 150), (''chr1'', 140, 160), (''chr1'', 155, 300)] [''bc1''] True ''#''
   = Inr (Continue, \<lparr>check_for_comments = False, use_strip = Some True, feature_idx = 0,
                     count_mtx = Dense [[1, 1, 0]]\<rparr>) \<and>
   count_run [tsv_line [''chr1'', ''145'', ''145'', ''bc1'']]
     [(''chr1'', 100, 150), (''chr1'', 140, 160), (''chr1'', 155, 300)] [''bc1''] False ''#''
   = Inr (Continue, \<lparr>check_for_comments = False, use_strip = Some True, feature_idx = 0,
                     count_mtx = Sparse \<lparr>n_rows = 1, n_cols = 3,
                                         entries = [[(0, 1), (1, 1)]]\<rparr>\<rparr>) \<and>
   count_run [tsv_line [''chr1'', ''145'', ''155'', ''bc1'']]
     [(''chr1'', 100, 150), (''chr1'', 140, 160), (''chr1'', 155, 300)] [''bc1''] True ''#''
   = Inr (Continue, \<lparr>check_for_comments = False, use_strip = Some True, feature_idx = 0,
                     count_mtx = Dense [[1, 1, 1]]\<rparr>) \<and>
   count_run [tsv_line [''chr1'', ''145'', ''155'', ''bc1'']]
     [(''chr1'', 100, 150), (''chr1'', 140, 160), (''chr1'', 155, 300)] [''bc1''] False ''#''
   = Inr (Continue, \<lparr>check_for_comments = False, use_strip = Some True, feature_idx = 0,
                     count_mtx = Sparse \<lparr>n_rows = 1, n_cols = 3,
                                         entries = [[(0, 1), (1, 1), (2, 1)]]\<rparr>\<rparr>)"
  by code_simp

section \<open>Tables\<close>

lemma row_get_absent: "\<forall>e \<in> set es. j < fst e \<Longrightarrow> row_get es j = 0"
  by (induction es) auto

lemma row_get_row_increment:
  "sorted_wrt (<) (map fst es) \<Longrightarrow>
   row_get (row_increment j es) k = row_get es k + (if k = j then 1 else 0)"
proof (induction j es rule: row_increment.induct)
  case (1 j)
  show ?case by simp
next
  case (2 j c v es)
  show ?case
  proof (cases "j < c")
    case True
    with "2.prems" have "\<forall>e \<in> set ((c, v) # es). j < fst e" by auto
    from row_get_absent [OF this] True show ?thesis by auto
  next
    case False
    with "2.prems" "2.IH" show ?thesis by auto
  qed
qed

lemma set_row_increment: "fst ` set (row_increment j es) = insert j (fst ` set es)"
  by (induction j es rule: row_increment.induct) auto

lemma sorted_row_increment:
  "sorted_wrt (<) (map fst es) \<Longrightarrow> sorted_wrt (<) (map fst (row_increment j es))"
proof (induction j es rule: row_increment.induct)
  case (1 j)
  show ?case by simp
next
  case (2 j c v es)
  show ?case
  proof (cases "j < c")
    case True
    with "2.prems" show ?thesis by auto
  next
    case False
    note nl = this
    show ?thesis
    proof (cases "j = c")
      case True
      with "2.prems" show ?thesis by simp
    next
      case False
      with nl "2.prems" "2.IH" set_row_increment [of j es] show ?thesis by auto
    qed
  qed
qed

lemma increment_ok:
  assumes "table_ok n_bcs n_features t" and "i < n_bcs" and "j < n_features"
  shows "\<exists>t'. increment t i j = Inr t' \<and> table_ok n_bcs n_features t' \<and>
           (\<forall>r < n_bcs. \<forall>k < n_features.
              cell t' r k = cell t r k + (if r = i \<and> k = j then 1 else 0))"
proof (cases t)
  case (Dense m)
  with assms have len: "length m = n_bcs" and rows: "\<forall>row \<in> set m. length row = n_features"
    by (simp_all add: list_all_iff)
  from len rows assms(2) have li: "length (m ! i) = n_features" by simp
  let ?m' = "m[i := (m ! i)[j := m ! i ! j + 1]]"
  from len li assms have inc: "increment t i j = Inr (Dense ?m')"
    by (simp add: Dense dense_increment_def)
  have "\<forall>row \<in> set ?m'. length row = n_features"
  proof
    fix row assume "row \<in> set ?m'"
    then have "row \<in> insert ((m ! i)[j := m ! i ! j + 1]) (set m)"
      using set_update_subset_insert by fastforce
    with rows li show "length row = n_features" by auto
  qed
  with len have ok: "table_ok n_bcs n_features (Dense ?m')"
    by (simp add: list_all_iff)
  have "cell (Dense ?m') r k = cell t r k + (if r = i \<and> k = j then 1 else 0)"
    if "r < n_bcs" "k < n_features" for r k
    using that len li assms by (auto simp: Dense nth_list_update)
  with inc ok show ?thesis by blast
next
  case (Sparse l)
  with assms have sh: "n_rows l = n_bcs" "n_cols l = n_features" "length (entries l) = n_bcs"
    and so: "\<forall>es \<in> set (entries l). sorted_wrt (<) (map fst es)"
    by (simp_all add: list_all_iff)
  from so sh assms(2) have soi: "sorted_wrt (<) (map fst (entries l ! i))" by simp
  let ?l' = "l\<lparr>entries := (entries l)[i := row_increment j (entries l ! i)]\<rparr>"
  from sh assms have inc: "increment t i j = Inr (Sparse ?l')"
    by (simp add: Sparse lil_increment_def)
  have "\<forall>es \<in> set ((entries l)[i := row_increment j (entries l ! i)]).
          sorted_wrt (<) (map fst es)"
  proof
    fix es assume "es \<in> set ((entries l)[i := row_increment j (entries l ! i)])"
    then have "es \<in> insert (row_increment j (entries l ! i)) (set (entries l))"
      using set_update_subset_insert by fastforce
    with so sorted_row_increment [OF soi] show "sorted_wrt (<) (map fst es)" by auto
  qed
  with sh have ok: "table_ok n_bcs n_features (Sparse ?l')" by (simp add: list_all_iff)
  have "cell (Sparse ?l') r k = cell t r k + (if r = i \<and> k = j then 1 else 0)"
    if "r < n_bcs" "k < n_features" for r k
    using that sh assms soi so
    by (auto simp: Sparse nth_list_update row_get_row_increment)
  with inc ok show ?thesis by blast
qed

lemma increment_fail:
  assumes "table_ok n_bcs n_features t" and "\<not> (i < n_bcs \<and> j < n_features)"
  shows "increment t i j = Inl IndexError"
proof (cases t)
  case (Dense m)
  with assms show ?thesis
    by (auto simp: dense_increment_def list_all_iff)
next
  case (Sparse l)
  with assms show ?thesis by (auto simp: lil_increment_def)
qed

lemma new_table_ok: "table_ok n_bcs n_features (new_table fast n_bcs n_features)"
  by (auto simp: new_table_def dense_zeros_def lil_zeros_def list_all_iff)

lemma new_table_cell:
  "r < n_bcs \<Longrightarrow> k < n_features \<Longrightarrow> cell (new_table fast n_bcs n_features) r k = 0"
  by (simp add: new_table_def dense_zeros_def lil_zeros_def)

lemma table_ok_rows: "table_ok n_bcs n_features t \<Longrightarrow> table_rows t = n_bcs"
  by (cases t) simp_all

section \<open>What the scan does to the table, it does by increments\<close>

text \<open>
  The control flow of the scan never reads the table. So a relation between two tables
  that the increments of valid barcodes keep is kept by the follow-up loop, by the loop
  body and by the whole scan, which also end the same way on both tables.
\<close>

lemma add_hit_rel:
  assumes inc: "\<And>t1 t2 i j. R t1 t2 \<Longrightarrow> bcm bc = Some i \<Longrightarrow> j < length features \<Longrightarrow>
                  rel_sum (=) R (increment t1 i j) (increment t2 i j)"
    and "R t1 t2" and "idx < length features"
  shows "rel_sum (=) R (add_hit bcm bc idx t1) (add_hit bcm bc idx t2)"
  using assms by (auto simp: add_hit_def split: option.splits)

lemma follow_up_rel:
  assumes inc: "\<And>t1 t2 i j. R t1 t2 \<Longrightarrow> bcm bc = Some i \<Longrightarrow> j < length features \<Longrightarrow>
                  rel_sum (=) R (increment t1 i j) (increment t2 i j)"
  shows "R t1 t2 \<Longrightarrow>
         rel_sum (=) R (follow_up cm bcm features bc ci start stop tmp t1)
                       (follow_up cm bcm features bc ci start stop tmp t2)"
proof (induction "length features - tmp" arbitrary: tmp t1 t2)
  case 0
  note u = follow_up.simps [of cm bcm features bc ci start stop tmp t1]
    follow_up.simps [of cm bcm features bc ci start stop tmp t2]
  from 0 show ?case unfolding u by simp
next
  case (Suc n)
  note u = follow_up.simps [of cm bcm features bc ci start stop tmp t1]
    follow_up.simps [of cm bcm features bc ci start stop tmp t2]
  show ?case
  proof (cases "tmp < length features")
    case False
    with Suc.prems show ?thesis unfolding u by simp
  next
    case True
    show ?thesis
    proof (cases "chrom_rank cm features tmp")
      case (Inl e)
      with True show ?thesis unfolding u by simp
    next
      case (Inr r)
      show ?thesis
      proof (cases "\<not> (stop < fstart (features ! tmp) \<or> start > fstop (features ! tmp))
                    \<and> ci = r")
        case False
        with True Inr Suc.prems show ?thesis unfolding u by auto
      next
        case hit: True
        from add_hit_rel [of R bcm bc features t1 t2 tmp, OF inc Suc.prems True]
        have ah: "rel_sum (=) R (add_hit bcm bc tmp t1) (add_hit bcm bc tmp t2)" by simp
        show ?thesis
        proof (cases "add_hit bcm bc tmp t1")
          case (Inl e)
          with ah have "add_hit bcm bc tmp t2 = Inl e"
            by (cases "add_hit bcm bc tmp t2") auto
          with Inl True Inr hit show ?thesis unfolding u by auto
        next
          case t1': (Inr t1')
          with ah obtain t2' where t2': "add_hit bcm bc tmp t2 = Inr t2'" and r': "R t1' t2'"
            by (cases "add_hit bcm bc tmp t2") auto
          from Suc.hyps(2) True have "n = length features - (tmp + 1)" by simp
          from Suc.hyps(1) [OF this r']
          have "rel_sum (=) R (follow_up cm bcm features bc ci start stop (tmp + 1) t1')
                              (follow_up cm bcm features bc ci start stop (tmp + 1) t2')" .
          with t1' t2' True Inr hit show ?thesis unfolding u by auto
        qed
      qed
    qed
  qed
qed

lemma overlap_rel:
  assumes inc: "\<And>t1 t2 i j. R t1 t2 \<Longrightarrow> bcm bc = Some i \<Longrightarrow> j < length features \<Longrightarrow>
                  rel_sum (=) R (increment t1 i j) (increment t2 i j)"
    and r: "R t1 t2" and idx: "idx < length features"
  shows "rel_sum (=) R (overlap cm bcm features bc ci start stop idx t1)
                       (overlap cm bcm features bc ci start stop idx t2)"
proof -
  from add_hit_rel [of R bcm bc features t1 t2 idx, OF inc r idx]
  have ah: "rel_sum (=) R (add_hit bcm bc idx t1) (add_hit bcm bc idx t2)" by simp
  show ?thesis
  proof (cases "add_hit bcm bc idx t1")
    case (Inl e)
    with ah have "add_hit bcm bc idx t2 = Inl e"
      by (cases "add_hit bcm bc idx t2") auto
    with Inl show ?thesis by (simp add: overlap_def)
  next
    case t1': (Inr t1')
    with ah obtain t2' where t2': "add_hit bcm bc idx t2 = Inr t2'" and r': "R t1' t2'"
      by (cases "add_hit bcm bc idx t2") auto
    from follow_up_rel [of R bcm bc features t1' t2', OF inc r']
    show ?thesis using t1' t2' by (simp add: overlap_def)
  qed
qed

lemma intervals_rel:
  assumes inc: "\<And>t1 t2 i j. R t1 t2 \<Longrightarrow> bcm bc = Some i \<Longrightarrow> j < length features \<Longrightarrow>
                  rel_sum (=) R (increment t1 i j) (increment t2 i j)"
    and r: "R t1 t2"
  shows "rel_sum (=) (rel_prod (=) (rel_prod (=) R))
           (intervals cm bcm features line_split bc ci idx t1)
           (intervals cm bcm features line_split bc ci idx t2)"
proof -
  have ov: "rel_sum (=) R (overlap cm bcm features bc ci start stop k t1)
                          (overlap cm bcm features bc ci start stop k t2)"
    if "k < length features" for k start stop
    using overlap_rel [of R bcm bc features t1 t2 k, OF inc r that] by simp
  have lift: "rel_sum (=) (rel_prod (=) (rel_prod (=) R))
      (case x of Inl e \<Rightarrow> Inl e | Inr t \<Rightarrow> Inr (Continue, k, t))
      (case y of Inl e \<Rightarrow> Inl e | Inr t \<Rightarrow> Inr (Continue, k, t))"
    if "rel_sum (=) R x y" for x y k
    using that by (cases x; cases y) auto
  show ?thesis
    unfolding intervals_def
    using r by (simp add: lift ov split: sum.split)
qed

lemma process_rel:
  assumes inc: "\<And>t1 t2 i j bc. R t1 t2 \<Longrightarrow> bc \<in> set valid_bcs \<Longrightarrow> bcm bc = Some i \<Longrightarrow>
                  j < length features \<Longrightarrow>
                  rel_sum (=) R (increment t1 i j) (increment t2 i j)"
    and r: "R t1 t2"
  shows "rel_sum (=) (rel_prod (=) (rel_prod (=) R))
           (process features valid_bcs cm bcm idx t1 line_split)
           (process features valid_bcs cm bcm idx t2 line_split)"
proof (cases "3 < length line_split \<and> line_split ! 3 \<in> set valid_bcs")
  case False
  with r show ?thesis by (auto simp: process_def)
next
  case True
  then have bc: "line_split ! 3 \<in> set valid_bcs" by simp
  have iv: "rel_sum (=) (rel_prod (=) (rel_prod (=) R))
           (intervals cm bcm features line_split (line_split ! 3) ci k t1)
           (intervals cm bcm features line_split (line_split ! 3) ci k t2)" for ci k
    by (rule intervals_rel [OF inc [OF _ bc] r])
  show ?thesis
    unfolding process_def
    using r True by (simp add: iv split: sum.split option.split)
qed

lemma scan_rel:
  assumes inc: "\<And>t1 t2 i j bc. R t1 t2 \<Longrightarrow> bc \<in> set valid_bcs \<Longrightarrow> bcm bc = Some i \<Longrightarrow>
                  j < length features \<Longrightarrow>
                  rel_sum (=) R (increment t1 i j) (increment t2 i j)"
  shows "R t1 t2 \<Longrightarrow>
         rel_sum (=) (rel_prod (=) (rel_prod (=) R))
           (scan features valid_bcs cm bcm idx t1 rows)
           (scan features valid_bcs cm bcm idx t2 rows)"
proof (induction rows arbitrary: idx t1 t2)
  case Nil
  then show ?case by simp
next
  case (Cons row rows)
  from process_rel [of R valid_bcs bcm features t1 t2 cm idx row, OF inc Cons.prems]
  have p: "rel_sum (=) (rel_prod (=) (rel_prod (=) R))
           (process features valid_bcs cm bcm idx t1 row)
           (process features valid_bcs cm bcm idx t2 row)" by simp
  show ?case
  proof (cases "process features valid_bcs cm bcm idx t1 row")
    case (Inl e)
    with p have "process features valid_bcs cm bcm idx t2 row = Inl e"
      by (cases "process features valid_bcs cm bcm idx t2 row") auto
    with Inl show ?thesis by simp
  next
    case (Inr res1)
    obtain c k t1' where res1: "res1 = (c, k, t1')" by (cases res1)
    with Inr p obtain t2' where
      p2: "process features valid_bcs cm bcm idx t2 row = Inr (c, k, t2')" and r': "R t1' t2'"
      by (cases "process features valid_bcs cm bcm idx t2 row") auto
    show ?thesis
    proof (cases c)
      case Break
      with Inr res1 p2 r' show ?thesis by simp
    next
      case Continue
      with Inr res1 p2 Cons.IH [OF r', of k] show ?thesis by simp
    qed
  qed
qed

text \<open>The same for a property of one table.\<close>

lemma scan_invariant:
  assumes inc: "\<And>t i j bc t'. P t \<Longrightarrow> bc \<in> set valid_bcs \<Longrightarrow> bcm bc = Some i \<Longrightarrow>
                  j < length features \<Longrightarrow> increment t i j = Inr t' \<Longrightarrow> P t'"
    and p: "P tbl"
    and s: "scan features valid_bcs cm bcm idx tbl rows = Inr (c, idx', tbl')"
  shows "P tbl'"
proof -
  let ?R = "\<lambda>t1 t2. t1 = t2 \<and> P t1"
  have "rel_sum (=) ?R (increment t1 i j) (increment t2 i j)"
    if "?R t1 t2" "bc \<in> set valid_bcs" "bcm bc = Some i" "j < length features" for t1 t2 i j bc
    using that inc [of t1 bc i j] by (cases "increment t1 i j") auto
  from scan_rel [of ?R valid_bcs bcm features tbl tbl cm idx rows, OF this] p
  have "rel_sum (=) (rel_prod (=) (rel_prod (=) ?R))
           (scan features valid_bcs cm bcm idx tbl rows)
           (scan features valid_bcs cm bcm idx tbl rows)" by simp
  with s show ?thesis by simp
qed

section \<open>The two backends\<close>

lemma increment_table_ok:
  assumes "table_ok n_bcs n_features t" and "increment t i j = Inr t'"
  shows "table_ok n_bcs n_features t' \<and> i < n_bcs \<and> j < n_features"
proof -
  from increment_fail [OF assms(1), of i j] assms(2)
  have ij: "i < n_bcs \<and> j < n_features" by auto
  with increment_ok [OF assms(1), of i j] assms(2) show ?thesis by auto
qed

lemma row_increment_front:
  "\<forall>e \<in> set es. j < fst e \<Longrightarrow> row_increment j es = (j, 1) # es"
  by (cases es) auto

lemma enumerate_columns: "e \<in> set (enumerate (Suc n) row) \<Longrightarrow> n < fst e"
  by (auto simp: in_set_enumerate_eq)

lemma row_increment_enumerate:
  "j < length row \<Longrightarrow> 0 \<le> row ! j \<Longrightarrow>
   row_increment (n + j) (filter (\<lambda>(k, v). v \<noteq> 0) (enumerate n row))
   = filter (\<lambda>(k, v). v \<noteq> 0) (enumerate n (row[j := row ! j + 1]))"
proof (induction row arbitrary: n j)
  case Nil
  then show ?case by simp
next
  case (Cons v vs)
  let ?F = "filter (\<lambda>(k, v). v \<noteq> (0::int)) (enumerate (Suc n) vs)"
  show ?case
  proof (cases j)
    case 0
    have "\<forall>e \<in> set ?F. n < fst e" using enumerate_columns by fastforce
    from row_increment_front [OF this] 0 Cons.prems show ?thesis by auto
  next
    case (Suc j')
    with Cons.prems have "j' < length vs" "0 \<le> vs ! j'" by simp_all
    from Cons.IH [OF this, of "Suc n"] Suc show ?thesis by auto
  qed
qed

lemma row_get_enumerate:
  "j < length row \<Longrightarrow>
   row_get (filter (\<lambda>(k, v). v \<noteq> 0) (enumerate n row)) (n + j) = row ! j"
proof (induction row arbitrary: n j)
  case Nil
  then show ?case by simp
next
  case (Cons v vs)
  let ?F = "filter (\<lambda>(k, v). v \<noteq> (0::int)) (enumerate (Suc n) vs)"
  show ?case
  proof (cases j)
    case 0
    have "\<forall>e \<in> set ?F. n < fst e" using enumerate_columns by fastforce
    from row_get_absent [OF this] 0 show ?thesis by auto
  next
    case (Suc j')
    with Cons.prems have "j' < length vs" by simp
    from Cons.IH [OF this, of "Suc n"] Suc show ?thesis by auto
  qed
qed

lemma dense_row_entries_update:
  "j < length row \<Longrightarrow> 0 \<le> row ! j \<Longrightarrow>
   row_increment j (dense_row_entries row) = dense_row_entries (row[j := row ! j + 1])"
  using row_increment_enumerate [of j row 0] by (simp add: dense_row_entries_def)

lemma row_get_dense_row_entries:
  "j < length row \<Longrightarrow> row_get (dense_row_entries row) j = row ! j"
  using row_get_enumerate [of j row 0] by (simp add: dense_row_entries_def)

lemma same_counts_new_table:
  "same_counts (new_table True n_bcs n_features) (new_table False n_bcs n_features)"
proof -
  have "dense_row_entries (replicate n_features 0) = []"
    by (auto simp: dense_row_entries_def filter_empty_conv in_set_enumerate_eq)
  then show ?thesis
    by (simp add: new_table_def dense_zeros_def lil_zeros_def list_all_iff)
qed

lemma same_counts_increment:
  assumes "same_counts t1 t2"
  shows "rel_sum (=) same_counts (increment t1 i j) (increment t2 i j)"
proof -
  from assms obtain m l where t: "t1 = Dense m" "t2 = Sparse l"
    by (cases t1; cases t2) auto
  with assms have len: "length m = n_rows l"
    and rows: "\<forall>row \<in> set m. length row = n_cols l \<and> (\<forall>v \<in> set row. 0 \<le> v)"
    and ent: "entries l = map dense_row_entries m"
    by (simp_all add: list_all_iff)
  show ?thesis
  proof (cases "i < length m \<and> j < n_cols l")
    case False
    with len rows ent show ?thesis
      by (auto simp: t dense_increment_def lil_increment_def)
  next
    case True
    then have "m ! i \<in> set m" by simp
    with rows have ri: "length (m ! i) = n_cols l" "\<forall>v \<in> set (m ! i). 0 \<le> v" by blast+
    with True have pos: "0 \<le> m ! i ! j" by simp
    let ?row = "(m ! i)[j := m ! i ! j + 1]"
    have row': "length ?row = n_cols l \<and> (\<forall>v \<in> set ?row. 0 \<le> v)"
    proof -
      have "set ?row \<subseteq> insert (m ! i ! j + 1) (set (m ! i))"
        by (rule set_update_subset_insert)
      with ri pos show ?thesis by auto
    qed
    have "\<forall>row \<in> set (m[i := ?row]). length row = n_cols l \<and> (\<forall>v \<in> set row. 0 \<le> v)"
    proof
      fix row assume "row \<in> set (m[i := ?row])"
      then have "row \<in> insert ?row (set m)" using set_update_subset_insert by fastforce
      with rows row' show "length row = n_cols l \<and> (\<forall>v \<in> set row. 0 \<le> v)" by blast
    qed
    moreover have "(entries l)[i := row_increment j (entries l ! i)]
                   = map dense_row_entries (m[i := ?row])"
      using True ri pos by (simp add: ent map_update dense_row_entries_update)
    ultimately show ?thesis
      using True len ri ent
      by (simp add: t dense_increment_def lil_increment_def list_all_iff)
  qed
qed

lemma same_counts_cell:
  assumes "same_counts d s" and "i < table_rows d" and "j < n_features"
    and "table_ok n_bcs n_features d"
  shows "cell d i j = cell s i j"
proof -
  from assms(1) obtain m l where t: "d = Dense m" "s = Sparse l"
    by (cases d; cases s) auto
  with assms have i: "i < length m" and ent: "entries l = map dense_row_entries m"
    and rows: "\<forall>row \<in> set m. length row = n_features"
    by (simp_all add: list_all_iff)
  from i have "m ! i \<in> set m" by simp
  with rows i ent have "length (m ! i) = n_features" "i < length m"
    "entries l = map dense_row_entries m"
    by simp_all
  with assms(3) show ?thesis by (simp add: t row_get_dense_row_entries)
qed

lemma same_counts_csr: "same_counts d s \<Longrightarrow> to_csr d = to_csr s"
  by (cases d; cases s) (simp_all add: to_csr_def)

lemma same_counts_rows: "same_counts d s \<Longrightarrow> table_rows d = table_rows s"
  by (cases d; cases s) simp_all

lemma scan_backends:
  "rel_sum (=) (rel_prod (=) (rel_prod (=)
       (\<lambda>d s. same_counts d s \<and> table_ok n_bcs n_features d)))
     (scan features valid_bcs cm bcm idx (new_table True n_bcs n_features) rows)
     (scan features valid_bcs cm bcm idx (new_table False n_bcs n_features) rows)"
proof (rule scan_rel)
  fix t1 t2 i j bc
  assume r: "same_counts t1 t2 \<and> table_ok n_bcs n_features t1"
  then have sc: "rel_sum (=) same_counts (increment t1 i j) (increment t2 i j)"
    using same_counts_increment by blast
  show "rel_sum (=) (\<lambda>d s. same_counts d s \<and> table_ok n_bcs n_features d)
          (increment t1 i j) (increment t2 i j)"
  proof (cases "increment t1 i j")
    case (Inl e)
    with sc show ?thesis by (cases "increment t2 i j") auto
  next
    case (Inr t1')
    with increment_table_ok r have "table_ok n_bcs n_features t1'" by blast
    with Inr sc show ?thesis by (cases "increment t2 i j") auto
  qed
next
  show "same_counts (new_table True n_bcs n_features) (new_table False n_bcs n_features)
        \<and> table_ok n_bcs n_features (new_table True n_bcs n_features)"
    using same_counts_new_table new_table_ok by blast
qed

text \<open>
  C2. With \<^verbatim>\<open>fast=True\<close> and with \<^verbatim>\<open>fast=False\<close> a run ends the same way: both
  raise the same exception, or both return a table, and then the two tables have the
  same number of rows, the same value in every cell, and the same compressed-sparse-row
  form.
\<close>

theorem backends_agree:
  "(\<exists>e. count fragments features valid_bcs True comment = Inl e \<and>
        count fragments features valid_bcs False comment = Inl e) \<or>
   (\<exists>d s. count fragments features valid_bcs True comment = Inr d \<and>
          count fragments features valid_bcs False comment = Inr s \<and>
          table_rows d = table_rows s \<and>
          (\<forall>i < length valid_bcs. \<forall>j < length features. cell d i j = cell s i j) \<and>
          to_csr d = to_csr s)"
proof -
  let ?scan = "\<lambda>fast. scan features valid_bcs (build_chrom_mapping features)
      (build_bc_mapping valid_bcs) 0 (new_table fast (length valid_bcs) (length features))
      (line_splits comment fragments)"
  note rel = scan_backends [of "length valid_bcs" "length features" features valid_bcs
      "build_chrom_mapping features" "build_bc_mapping valid_bcs" 0
      "line_splits comment fragments"]
  show ?thesis
  proof (cases "?scan True")
    case (Inl e)
    with rel have "?scan False = Inl e" by (cases "?scan False") auto
    with Inl show ?thesis by (simp add: count_scan)
  next
    case (Inr res)
    obtain c idx d where res: "res = (c, idx, d)" by (cases res)
    with Inr rel obtain s where s: "?scan False = Inr (c, idx, s)"
      and sc: "same_counts d s" and ok: "table_ok (length valid_bcs) (length features) d"
      by (cases "?scan False") auto
    from ok have "table_rows d = length valid_bcs" by (rule table_ok_rows)
    with sc ok have "\<forall>i < length valid_bcs. \<forall>j < length features. cell d i j = cell s i j"
      using same_counts_cell by simp
    with Inr res s sc show ?thesis
      by (simp add: count_scan same_counts_csr same_counts_rows)
  qed
qed

theorem backends_agree_witness:
  "count [tsv_line [''chr1'', ''145'', ''155'', ''bc2''], tsv_line [''chr1'', ''150'', ''155'', ''bc2'']]
     [(''chr1'', 100, 150), (''chr1'', 140, 160), (''chr1'', 155, 300)] [''bc1'', ''bc2'']
     True ''#'' = Inr (Dense [[0, 0, 0], [2, 2, 2]]) \<and>
   count [tsv_line [''chr1'', ''145'', ''155'', ''bc2''], tsv_line [''chr1'', ''150'', ''155'', ''bc2'']]
     [(''chr1'', 100, 150), (''chr1'', 140, 160), (''chr1'', 155, 300)] [''bc1'', ''bc2'']
     False ''#''
     = Inr (Sparse \<lparr>n_rows = 2, n_cols = 3, entries = [[], [(0, 2), (1, 2), (2, 2)]]\<rparr>) \<and>
   (1::nat) < length [''bc1'', ''bc2''] \<and>
   (2::nat) < length [(''chr1'', 100::int, 150::int), (''chr1'', 140, 160), (''chr1'', 155, 300)] \<and>
   cell (Dense [[0, 0, 0], [2, 2, 2]]) 1 2
     = cell (Sparse \<lparr>n_rows = 2, n_cols = 3, entries = [[], [(0, 2), (1, 2), (2, 2)]]\<rparr>) 1 2 \<and>
   to_csr (Dense [[0, 0, 0], [2, 2, 2]])
     = to_csr (Sparse \<lparr>n_rows = 2, n_cols = 3, entries = [[], [(0, 2), (1, 2), (2, 2)]]\<rparr>)"
proof -
  let ?fr = "[tsv_line [''chr1'', ''145'', ''155'', ''bc2''], tsv_line [''chr1'', ''150'', ''155'', ''bc2'']]"
  let ?fs = "[(''chr1'', 100::int, 150::int), (''chr1'', 140, 160), (''chr1'', 155, 300)]"
  let ?d = "Dense [[0, 0, 0], [2, 2, 2]]"
  let ?s = "Sparse \<lparr>n_rows = 2, n_cols = 3, entries = [[], [(0, 2), (1, 2), (2, 2)]]\<rparr>"
  have d: "count ?fr ?fs [''bc1'', ''bc2''] True ''#'' = Inr ?d" by code_simp
  have s: "count ?fr ?fs [''bc1'', ''bc2''] False ''#'' = Inr ?s" by code_simp
  have i: "(1::nat) < length [''bc1'', ''bc2'']" by simp
  have j: "(2::nat) < length ?fs" by simp
  from backends_agree [of ?fr ?fs "[''bc1'', ''bc2'']" "''#''"] d s
  have "(\<forall>i < length [''bc1'', ''bc2'']. \<forall>j < length ?fs. cell ?d i j = cell ?s i j)
        \<and> to_csr ?d = to_csr ?s"
    by simp
  with i j have "cell ?d 1 2 = cell ?s 1 2 \<and> to_csr ?d = to_csr ?s" by blast
  with d s i j show ?thesis by blast
qed

section \<open>Barcodes that occur twice\<close>

lemma build_bc_mapping_snoc:
  "build_bc_mapping (bcs @ [b]) = (build_bc_mapping bcs)(b \<mapsto> length bcs)"
  by (simp add: build_bc_mapping_def enumerate_append_eq)

lemma build_bc_mapping_last:
  "build_bc_mapping bcs x = Some k \<longleftrightarrow>
     k < length bcs \<and> bcs ! k = x \<and> (\<forall>k'. k < k' \<and> k' < length bcs \<longrightarrow> bcs ! k' \<noteq> x)"
proof (induction bcs arbitrary: k rule: rev_induct)
  case Nil
  show ?case by (simp add: build_bc_mapping_def)
next
  case (snoc b bcs)
  show ?case
  proof (cases "x = b")
    case True
    have "(k < Suc (length bcs) \<and> (bcs @ [b]) ! k = b \<and>
           (\<forall>k'. k < k' \<and> k' < Suc (length bcs) \<longrightarrow> (bcs @ [b]) ! k' \<noteq> b))
          \<longleftrightarrow> k = length bcs"
    proof
      assume a: "k < Suc (length bcs) \<and> (bcs @ [b]) ! k = b \<and>
           (\<forall>k'. k < k' \<and> k' < Suc (length bcs) \<longrightarrow> (bcs @ [b]) ! k' \<noteq> b)"
      show "k = length bcs"
      proof (rule ccontr)
        assume "k \<noteq> length bcs"
        with a have "k < length bcs \<and> length bcs < Suc (length bcs)" by simp
        with a have "(bcs @ [b]) ! length bcs \<noteq> b" by blast
        then show False by simp
      qed
    next
      assume "k = length bcs"
      then show "k < Suc (length bcs) \<and> (bcs @ [b]) ! k = b \<and>
           (\<forall>k'. k < k' \<and> k' < Suc (length bcs) \<longrightarrow> (bcs @ [b]) ! k' \<noteq> b)"
        by auto
    qed
    with True show ?thesis by (auto simp: build_bc_mapping_snoc)
  next
    case False
    have "(k < Suc (length bcs) \<and> (bcs @ [b]) ! k = x \<and>
           (\<forall>k'. k < k' \<and> k' < Suc (length bcs) \<longrightarrow> (bcs @ [b]) ! k' \<noteq> x))
          \<longleftrightarrow> (k < length bcs \<and> bcs ! k = x \<and>
           (\<forall>k'. k < k' \<and> k' < length bcs \<longrightarrow> bcs ! k' \<noteq> x))"
      using False by (auto simp: nth_append less_Suc_eq)
    with False snoc.IH [of k] show ?thesis by (simp add: build_bc_mapping_snoc)
  qed
qed

lemma build_bc_mapping_valid:
  "bc \<in> set bcs \<Longrightarrow> \<exists>i < length bcs. build_bc_mapping bcs bc = Some i"
proof (induction bcs rule: rev_induct)
  case Nil
  then show ?case by simp
next
  case (snoc b bcs)
  then show ?case
    by (cases "bc = b") (auto simp: build_bc_mapping_snoc less_Suc_eq)
qed

lemma scan_table_ok:
  assumes "table_ok n_bcs (length features) tbl"
    and "scan features valid_bcs cm bcm idx tbl rows = Inr (c, idx', tbl')"
  shows "table_ok n_bcs (length features) tbl'"
  by (rule scan_invariant [where P = "table_ok n_bcs (length features)", OF _ assms])
     (use increment_table_ok in blast)

text \<open>
  C10. When \<^verbatim>\<open>valid_bcs\<close> holds a barcode at the positions \<open>i < j\<close>, \<open>j\<close> being its
  last, a table that \<^verbatim>\<open>count\<close> returns still has one row for each position, every
  increment of the source for that barcode is the increment of row \<open>j\<close>, and row \<open>i\<close> is
  zero in every column.
\<close>

theorem duplicate_barcode_rows:
  assumes "i < j" and "j < length valid_bcs" and "valid_bcs ! i = valid_bcs ! j"
    and "\<forall>k. j < k \<and> k < length valid_bcs \<longrightarrow> valid_bcs ! k \<noteq> valid_bcs ! j"
    and "count fragments features valid_bcs fast comment = Inr t"
  shows "table_rows t = length valid_bcs \<and>
         (\<forall>idx tbl. add_hit (build_bc_mapping valid_bcs) (valid_bcs ! j) idx tbl
                      = increment tbl j idx) \<and>
         (\<forall>k < length features. cell t i k = 0)"
proof -
  let ?bcm = "build_bc_mapping valid_bcs"
  let ?n = "length valid_bcs" and ?f = "length features"
  let ?P = "\<lambda>t. table_ok ?n ?f t \<and> (\<forall>k < ?f. cell t i k = 0)"
  from assms(5) obtain c idx where
    s: "scan features valid_bcs (build_chrom_mapping features) ?bcm 0
          (new_table fast ?n ?f) (line_splits comment fragments) = Inr (c, idx, t)"
    by (cases "scan features valid_bcs (build_chrom_mapping features) ?bcm 0
          (new_table fast ?n ?f) (line_splits comment fragments)")
       (auto simp: count_scan)
  have noti: "?bcm bc \<noteq> Some i" for bc
  proof
    assume "?bcm bc = Some i"
    then have "\<forall>k'. i < k' \<and> k' < ?n \<longrightarrow> valid_bcs ! k' \<noteq> valid_bcs ! i"
      by (auto simp: build_bc_mapping_last)
    with assms(1,2,3) show False by auto
  qed
  have step: "?P t'" if "?P t0" "?bcm bc = Some r" "increment t0 r k = Inr t'" for t0 bc r k t'
  proof -
    from that(1,3) increment_table_ok have ok: "table_ok ?n ?f t'" "r < ?n" "k < ?f"
      by blast+
    from that(2) noti have "r \<noteq> i" by auto
    from increment_ok [OF _ ok(2,3), of t0] that(1,3)
    have "\<forall>ro < ?n. \<forall>k' < ?f. cell t' ro k' = cell t0 ro k' + (if ro = r \<and> k' = k then 1 else 0)"
      by auto
    with \<open>r \<noteq> i\<close> assms(1,2) that(1) have "\<forall>k' < ?f. cell t' i k' = 0" by auto
    with ok show ?thesis by simp
  qed
  have init: "?P (new_table fast ?n ?f)"
    using assms(1,2) by (simp add: new_table_ok new_table_cell)
  have "?P t"
    by (rule scan_invariant [where P = ?P, OF _ init s]) (use step in blast)
  moreover have "?bcm (valid_bcs ! j) = Some j"
    using assms(2,4) by (simp add: build_bc_mapping_last)
  ultimately show ?thesis using table_ok_rows [of ?n ?f t] by (simp add: add_hit_def)
qed

theorem duplicate_barcode_rows_witness:
  "count [tsv_line [''chr1'', ''100'', ''200'', ''bc1'']] [(''chr1'', 200, 300)]
     [''bc1'', ''bc1''] True ''#'' = Inr (Dense [[0], [1]]) \<and>
   table_rows (Dense [[0], [1]]) = length [''bc1'', ''bc1''] \<and>
   add_hit (build_bc_mapping [''bc1'', ''bc1'']) ([''bc1'', ''bc1''] ! 1) 0 (Dense [[0], [0]])
     = Inr (Dense [[0], [1]]) \<and>
   cell (Dense [[0], [1]]) 0 0 = 0"
proof -
  let ?v = "[''bc1'', ''bc1'']"
  have c: "count [tsv_line [''chr1'', ''100'', ''200'', ''bc1'']] [(''chr1'', 200, 300)]
     ?v True ''#'' = Inr (Dense [[0], [1]])" by code_simp
  have h: "(0::nat) < 1" "1 < length ?v" "?v ! 0 = ?v ! 1"
    "\<forall>k. 1 < k \<and> k < length ?v \<longrightarrow> ?v ! k \<noteq> ?v ! 1"
    by simp_all
  from duplicate_barcode_rows [OF h c]
  have "table_rows (Dense [[0], [1]]) = length ?v \<and>
        add_hit (build_bc_mapping ?v) (?v ! 1) 0 (Dense [[0], [0]]) = increment (Dense [[0], [0]]) 1 0 \<and>
        cell (Dense [[0], [1]]) 0 0 = 0"
    by simp
  moreover have "increment (Dense [[0], [0]]) 1 0 = Inr (Dense [[0], [1]])"
    by (simp add: dense_increment_def)
  ultimately show ?thesis using c by simp
qed

section \<open>Degenerate inputs\<close>

lemma build_chrom_mapping_Nil: "build_chrom_mapping [] = Map.empty"
  by (simp add: build_chrom_mapping_def)

lemma scan_discards:
  assumes "cm = Map.empty \<or> valid_bcs = []"
    and "\<forall>line_split \<in> set rows. 3 < length line_split"
  shows "scan features valid_bcs cm bcm idx tbl rows = Inr (Continue, idx, tbl)"
  using assms(2)
proof (induction rows)
  case Nil
  show ?case by simp
next
  case (Cons row rows)
  from assms(1) Cons.prems
  have "process features valid_bcs cm bcm idx tbl row = Inr (Continue, idx, tbl)"
    by (auto simp: process_def)
  with Cons show ?case by simp
qed

text \<open>
  C6. With an empty feature list or an empty list of valid barcodes, on a stream whose
  data lines all have at least four fields, \<^verbatim>\<open>count\<close> raises nothing: it runs to
  the end of the stream with the cursor at 0 and returns the table it created, of
  \<^verbatim>\<open>len(valid_bcs)\<close> rows and \<^verbatim>\<open>len(features)\<close> columns, zero in every cell.
\<close>

theorem degenerate_inputs_give_zero_table:
  assumes "features = [] \<or> valid_bcs = []"
    and "\<forall>line_split \<in> set (line_splits comment fragments). 3 < length line_split"
  shows "\<exists>s. count_run fragments features valid_bcs fast comment = Inr (Continue, s) \<and>
             feature_idx s = 0 \<and>
             count fragments features valid_bcs fast comment = Inr (count_mtx s) \<and>
             count_mtx s = new_table fast (length valid_bcs) (length features) \<and>
             table_ok (length valid_bcs) (length features) (count_mtx s) \<and>
             (\<forall>i < length valid_bcs. \<forall>j < length features. cell (count_mtx s) i j = 0)"
proof -
  let ?t = "new_table fast (length valid_bcs) (length features)"
  from assms(1) have "build_chrom_mapping features = Map.empty \<or> valid_bcs = []"
    by (auto simp: build_chrom_mapping_Nil)
  from scan_discards [OF this assms(2)]
  have sc: "scan features valid_bcs (build_chrom_mapping features) (build_bc_mapping valid_bcs) 0 ?t
          (line_splits comment fragments) = Inr (Continue, 0, ?t)" .
  have "map_sum id (\<lambda>(c, s'). (c, feature_idx s', count_mtx s'))
          (count_run fragments features valid_bcs fast comment) = Inr (Continue, 0, ?t)"
    unfolding count_run_def
    using count_loop_scan [of features valid_bcs "build_chrom_mapping features"
        "build_bc_mapping valid_bcs" comment "count_init features valid_bcs fast" fragments] sc
    by (simp add: count_init_def line_splits_def)
  then obtain s where run: "count_run fragments features valid_bcs fast comment = Inr (Continue, s)"
    and s: "feature_idx s = 0" "count_mtx s = ?t"
    by (cases "count_run fragments features valid_bcs fast comment") auto
  from run have "count fragments features valid_bcs fast comment = Inr (count_mtx s)"
    by (simp add: count_def)
  with run s show ?thesis
    by (simp add: new_table_ok new_table_cell)
qed

theorem degenerate_inputs_give_zero_table_witness:
  "count [tsv_line [''chr1'', ''50'', ''60'', ''bc1''], tsv_line [''chr1'', ''x'', ''y'', ''bc2'']]
     [] [''bc1'', ''bc2''] True ''#'' = Inr (Dense [[], []]) \<and>
   count [tsv_line [''chr1'', ''50'', ''60'', ''bc1''], tsv_line [''chr1'', ''x'', ''y'', ''bc2'']]
     [(''chr1'', 0, 100)] [] False ''#''
     = Inr (Sparse \<lparr>n_rows = 0, n_cols = 1, entries = []\<rparr>)"
proof -
  let ?fr = "[tsv_line [''chr1'', ''50'', ''60'', ''bc1''], tsv_line [''chr1'', ''x'', ''y'', ''bc2'']]"
  have rows: "\<forall>line_split \<in> set (line_splits ''#'' ?fr). 3 < length line_split"
    by code_simp
  have a: "([] :: feature list) = [] \<or> [''bc1'', ''bc2''] = []" by simp
  have b: "[(''chr1'', 0::int, 100::int)] = [] \<or> ([] :: string list) = []" by simp
  from degenerate_inputs_give_zero_table [OF a rows, of True]
  have 1: "count ?fr [] [''bc1'', ''bc2''] True ''#'' = Inr (Dense [[], []])"
    by (auto simp: new_table_def dense_zeros_def)
  from degenerate_inputs_give_zero_table [OF b rows, of False]
  have 2: "count ?fr [(''chr1'', 0, 100)] [] False ''#''
     = Inr (Sparse \<lparr>n_rows = 0, n_cols = 1, entries = []\<rparr>)"
    by (auto simp: new_table_def lil_zeros_def)
  from 1 2 show ?thesis by simp
qed

section \<open>One fragment against one feature\<close>

lemma fragment_of_Some:
  assumes "fragment_of line_split = Some (chrom, start, stop, bc)"
  shows "3 < length line_split \<and> line_split ! 0 = chrom \<and> line_split ! 3 = bc \<and>
         py_int (line_split ! 1) = Inr start \<and> py_int (line_split ! 2) = Inr stop"
  using assms by (auto simp: fragment_of_def split: if_splits sum.splits)

lemma process_single:
  assumes fr: "fragment_of line_split = Some (chrom, start, stop, bc)"
  shows "process [(chrom, a, b)] [bc] (build_chrom_mapping [(chrom, a, b)])
           (build_bc_mapping [bc]) 0 tbl line_split
         = (if stop < a then Inr (Continue, 0, tbl)
            else if start > b then Inr (Break, 1, tbl)
            else map_sum id (\<lambda>t. (Continue, 0, t)) (increment tbl 0 0))"
proof -
  note f = fragment_of_Some [OF fr]
  have cm: "build_chrom_mapping [(chrom, a, b)] = [chrom \<mapsto> 0]"
    by (simp add: build_chrom_mapping_def fchrom_def)
  have bcm: "build_bc_mapping [bc] = [bc \<mapsto> 0]"
    by (simp add: build_bc_mapping_def)
  have cr: "chrom_rank [chrom \<mapsto> 0] [(chrom, a, b)] 0 = Inr 0"
    by (simp add: chrom_rank_def fchrom_def)
  have sf: "skip_features [chrom \<mapsto> 0] [(chrom, a, b)] 0 start 0 = Inr 1" if "start > b"
    using that cr
    by (simp add: skip_features.simps [of _ _ _ _ 0] skip_features.simps [of _ _ _ _ "Suc 0"]
        fstop_def)
  have fu: "follow_up [chrom \<mapsto> 0] [bc \<mapsto> 0] [(chrom, a, b)] bc 0 start stop (Suc 0) t = Inr t"
    for t
    by (simp add: follow_up.simps [of _ _ _ _ _ _ _ "Suc 0"])
  have ov: "overlap [chrom \<mapsto> 0] [bc \<mapsto> 0] [(chrom, a, b)] bc 0 start stop 0 tbl
            = increment tbl 0 0"
    by (cases "increment tbl 0 0") (simp_all add: overlap_def add_hit_def fu)
  show ?thesis
    using f cr sf ov
    by (cases "increment tbl 0 0")
       (auto simp: process_def intervals_def cm bcm fstart_def fstop_def)
qed

text \<open>
  C3. A fragment overlaps a feature when \<open>stop \<ge> fstart\<close> and \<open>start \<le> fstop\<close>: for
  a stream of one line that denotes a fragment with the only valid barcode, and one
  feature on its chromosome, \<^verbatim>\<open>count\<close> returns a table whose only cell is 1 when
  both hold and 0 otherwise. The fragment [100, 200] gets one hit on the feature
  [200, 300], and the fragment [100, 199] none.
\<close>

theorem closed_interval_overlap:
  "(map fragment_of (line_splits comment [line]) = [Some (chrom, start, stop, bc)] \<longrightarrow>
      (\<exists>t. count [line] [(chrom, fstart', fstop')] [bc] fast comment = Inr t \<and>
           table_rows t = 1 \<and>
           cell t 0 0 = (if stop \<ge> fstart' \<and> start \<le> fstop' then 1 else 0))) \<and>
   count [tsv_line [''chr1'', ''100'', ''200'', ''bc1'']] [(''chr1'', 200, 300)] [''bc1'']
     True ''#'' = Inr (Dense [[1]]) \<and>
   count [tsv_line [''chr1'', ''100'', ''200'', ''bc1'']] [(''chr1'', 200, 300)] [''bc1'']
     False ''#'' = Inr (Sparse \<lparr>n_rows = 1, n_cols = 1, entries = [[(0, 1)]]\<rparr>) \<and>
   count [tsv_line [''chr1'', ''100'', ''199'', ''bc1'']] [(''chr1'', 200, 300)] [''bc1'']
     True ''#'' = Inr (Dense [[0]]) \<and>
   count [tsv_line [''chr1'', ''100'', ''199'', ''bc1'']] [(''chr1'', 200, 300)] [''bc1'']
     False ''#'' = Inr (Sparse \<lparr>n_rows = 1, n_cols = 1, entries = [[]]\<rparr>)"
proof (intro conjI impI)
  assume "map fragment_of (line_splits comment [line]) = [Some (chrom, start, stop, bc)]"
  then obtain line_split where ls: "line_splits comment [line] = [line_split]"
    and fr: "fragment_of line_split = Some (chrom, start, stop, bc)"
    by (cases "line_splits comment [line]") auto
  let ?t0 = "new_table fast 1 1"
  have ok: "table_ok 1 1 ?t0" by (rule new_table_ok)
  from increment_ok [OF ok, of 0 0] obtain t1 where
    t1: "increment ?t0 0 0 = Inr t1" "table_ok 1 1 t1" "cell t1 0 0 = cell ?t0 0 0 + 1"
    by auto
  have z: "cell ?t0 0 0 = 0" by (simp add: new_table_cell)
  show "\<exists>t. count [line] [(chrom, fstart', fstop')] [bc] fast comment = Inr t \<and>
           table_rows t = 1 \<and>
           cell t 0 0 = (if stop \<ge> fstart' \<and> start \<le> fstop' then 1 else 0)"
    using t1 z table_ok_rows [OF ok] table_ok_rows [OF t1(2)]
    by (auto simp: count_scan ls process_single [OF fr])
qed code_simp+

theorem closed_interval_overlap_witness:
  "map fragment_of (line_splits ''#'' [tsv_line [''chr7'', ''5'', ''9'', ''bcA'']])
     = [Some (''chr7'', 5, 9, ''bcA'')] \<and>
   count [tsv_line [''chr7'', ''5'', ''9'', ''bcA'']] [(''chr7'', 9, 12)] [''bcA''] True ''#''
     = Inr (Dense [[1]]) \<and>
   cell (Dense [[1]]) 0 0 = (if (9::int) \<ge> 9 \<and> (5::int) \<le> 12 then 1 else 0)"
proof -
  have h: "map fragment_of (line_splits ''#'' [tsv_line [''chr7'', ''5'', ''9'', ''bcA'']])
     = [Some (''chr7'', 5, 9, ''bcA'')]" by code_simp
  have c: "count [tsv_line [''chr7'', ''5'', ''9'', ''bcA'']] [(''chr7'', 9, 12)] [''bcA''] True ''#''
     = Inr (Dense [[1]])" by code_simp
  from closed_interval_overlap [where comment = "''#''"
      and line = "tsv_line [''chr7'', ''5'', ''9'', ''bcA'']" and chrom = "''chr7''"
      and start = 5 and stop = 9 and bc = "''bcA''" and fstart' = 9 and fstop' = 12
      and fast = True] h c
  have "cell (Dense [[1]]) 0 0 = (if (9::int) \<ge> 9 \<and> (5::int) \<le> 12 then 1 else 0)"
    by auto
  with h c show ?thesis by blast
qed

section \<open>Lines with too few fields\<close>

lemma get_barcodes_loop_rows:
  "map_sum id barcodes (get_barcodes_loop comment s fh) =
     (if \<forall>line_split \<in> set (read_lines comment (bs_check_for_comments s) (bs_use_strip s) fh).
           3 < length line_split
      then Inr (barcodes s \<union>
             (\<lambda>line_split. line_split ! 3) `
               set (read_lines comment (bs_check_for_comments s) (bs_use_strip s) fh))
      else Inl IndexError)"
proof (induction fh arbitrary: s)
  case Nil
  show ?case by simp
next
  case (Cons line fh)
  show ?case
  proof (cases "bs_check_for_comments s \<and> startswith line comment")
    case True
    with Cons.IH [of s] show ?thesis by (simp add: get_barcodes_body_def)
  next
    case False
    obtain line_split us where rl: "read_line (bs_use_strip s) line = (line_split, us)"
      by (cases "read_line (bs_use_strip s) line")
    show ?thesis
    proof (cases "3 < length line_split")
      case short: False
      with False rl show ?thesis by (auto simp: get_barcodes_body_def)
    next
      case True
      let ?s' = "\<lparr>bs_check_for_comments = False, bs_use_strip = us,
                  barcodes = insert (line_split ! 3) (barcodes s)\<rparr>"
      from False rl True Cons.IH [of ?s'] show ?thesis
        by (auto simp: get_barcodes_body_def)
    qed
  qed
qed

lemma get_barcodes_rows:
  "get_barcodes fragments comment =
     (if \<forall>line_split \<in> set (line_splits comment fragments). 3 < length line_split
      then Inr ((\<lambda>line_split. line_split ! 3) ` set (line_splits comment fragments))
      else Inl IndexError)"
  unfolding get_barcodes_def line_splits_def
  by (subst get_barcodes_loop_rows) simp

lemma process_short:
  "\<not> 3 < length line_split \<Longrightarrow>
   process features valid_bcs cm bcm idx tbl line_split = Inl IndexError"
  by (simp add: process_def)

text \<open>
  What the code does with a line of three fields: both functions raise the generic
  \<^verbatim>\<open>IndexError\<close>, and \<^verbatim>\<open>count\<close> returns a table without an error when the
  line comes after the \<^verbatim>\<open>break\<close>.
\<close>

theorem short_line_counterexample:
  "get_barcodes [tsv_line [''chr1'', ''1'', ''2'']] ''#'' = Inl IndexError \<and>
   count [tsv_line [''chr1'', ''1'', ''2'']] [(''chr1'', 0, 100)] [''bc1''] True ''#''
     = Inl IndexError \<and>
   count [tsv_line [''chr1'', ''200'', ''210'', ''bc1''], tsv_line [''chr1'', ''1'', ''2'']]
     [(''chr1'', 0, 100)] [''bc1''] True ''#'' = Inr (Dense [[0]])"
  by code_simp

text \<open>
  C7. The code checks no field count and has no error of its own: a data line (a line
  after the leading comment block) that the reader splits into fewer than four fields
  makes \<^verbatim>\<open>line_split[3]\<close> raise \<^verbatim>\<open>IndexError\<close>. \<^verbatim>\<open>get_barcodes\<close> raises it for
  every stream with such a line; \<^verbatim>\<open>count\<close> raises it when the scan of the data lines
  before that line reaches its end without raising and without \<^verbatim>\<open>break\<close>.
\<close>

theorem short_line_raises_index_error:
  "((\<exists>line_split \<in> set (line_splits comment fragments). length line_split < 4) \<longrightarrow>
      get_barcodes fragments comment = Inl IndexError) \<and>
   (k < length (line_splits comment fragments) \<longrightarrow>
    length (line_splits comment fragments ! k) < 4 \<longrightarrow>
    scan features valid_bcs (build_chrom_mapping features) (build_bc_mapping valid_bcs) 0
      (new_table fast (length valid_bcs) (length features))
      (take k (line_splits comment fragments)) = Inr (Continue, idx, tbl) \<longrightarrow>
      count fragments features valid_bcs fast comment = Inl IndexError)"
proof (intro conjI impI)
  assume "\<exists>line_split \<in> set (line_splits comment fragments). length line_split < 4"
  then obtain line_split where "line_split \<in> set (line_splits comment fragments)"
    and "length line_split < 4" by blast
  moreover from this have "\<not> 3 < length line_split" by simp
  ultimately have "\<not> (\<forall>line_split \<in> set (line_splits comment fragments). 3 < length line_split)"
    by blast
  then show "get_barcodes fragments comment = Inl IndexError"
    by (simp add: get_barcodes_rows)
next
  let ?rows = "line_splits comment fragments"
  assume k: "k < length ?rows" and short: "length (?rows ! k) < 4"
    and pre: "scan features valid_bcs (build_chrom_mapping features)
      (build_bc_mapping valid_bcs) 0 (new_table fast (length valid_bcs) (length features))
      (take k ?rows) = Inr (Continue, idx, tbl)"
  from k have "?rows = take k ?rows @ ?rows ! k # drop (Suc k) ?rows"
    by (simp add: id_take_nth_drop)
  then have "scan features valid_bcs (build_chrom_mapping features)
      (build_bc_mapping valid_bcs) 0 (new_table fast (length valid_bcs) (length features)) ?rows
    = scan features valid_bcs (build_chrom_mapping features)
      (build_bc_mapping valid_bcs) 0 (new_table fast (length valid_bcs) (length features))
      (take k ?rows @ ?rows ! k # drop (Suc k) ?rows)"
    by simp
  also have "\<dots> = Inl IndexError"
    using pre short by (simp add: scan_append process_short)
  finally show "count fragments features valid_bcs fast comment = Inl IndexError"
    by (simp add: count_scan)
qed

theorem short_line_raises_index_error_witness:
  "get_barcodes [tsv_line [''chr1'', ''10'', ''20'', ''bc1''], tsv_line [''chr1'', ''30'']] ''#''
     = Inl IndexError \<and>
   count [tsv_line [''chr1'', ''10'', ''20'', ''bc1''], tsv_line [''chr1'', ''30'']]
     [(''chr1'', 0, 100)] [''bc1''] True ''#'' = Inl IndexError"
proof -
  let ?fr = "[tsv_line [''chr1'', ''10'', ''20'', ''bc1''], tsv_line [''chr1'', ''30'']]"
  have rows: "line_splits ''#'' ?fr = [[''chr1'', ''10'', ''20'', ''bc1''], [''chr1'', ''30'']]"
    by code_simp
  have a: "\<exists>line_split \<in> set (line_splits ''#'' ?fr). length line_split < 4"
    by (simp add: rows)
  have k: "1 < length (line_splits ''#'' ?fr)" "length (line_splits ''#'' ?fr ! 1) < 4"
    by (simp_all add: rows)
  have pre: "scan [(''chr1'', 0, 100)] [''bc1''] (build_chrom_mapping [(''chr1'', 0, 100)])
      (build_bc_mapping [''bc1'']) 0 (new_table True (length [''bc1'']) (length [(''chr1'', 0::int, 100::int)]))
      (take 1 (line_splits ''#'' ?fr)) = Inr (Continue, 0, Dense [[1]])"
    by code_simp
  from short_line_raises_index_error [where comment = "''#''" and fragments = ?fr
      and k = 1 and features = "[(''chr1'', 0, 100)]" and valid_bcs = "[''bc1'']"
      and fast = True and idx = 0 and tbl = "Dense [[1]]"] a k pre
  show ?thesis by blast
qed

section \<open>The one-time trim decision\<close>

lemma split_nonempty: "split sep s \<noteq> []"
  by (induction s) (auto split: list.splits)

lemma split_append:
  "split sep (a @ b) =
     butlast (split sep a) @ (last (split sep a) @ hd (split sep b)) # tl (split sep b)"
proof (induction a)
  case Nil
  show ?case using split_nonempty [of sep b] by (cases "split sep b") auto
next
  case (Cons c a)
  show ?case
  proof (cases "c = sep")
    case True
    with Cons split_nonempty [of sep a] show ?thesis by simp
  next
    case False
    show ?thesis
    proof (cases "split sep a")
      case Nil
      with split_nonempty show ?thesis by blast
    next
      case (Cons p ps)
      with False Cons.IH show ?thesis by (cases ps) auto
    qed
  qed
qed

lemma take_split_append:
  assumes "n < length (split sep a)"
  shows "take n (split sep (a @ b)) = take n (split sep a)"
proof -
  from assms have len: "n \<le> length (butlast (split sep a))" by simp
  have "take n (split sep a) = take n (butlast (split sep a) @ [last (split sep a)])"
    using split_nonempty [of sep a] by simp
  also have "\<dots> = take n (butlast (split sep a))" using len by simp
  finally show ?thesis using len by (simp add: split_append)
qed

lemma strip_suffix:
  assumes "\<not> starts_with_space line"
  shows "\<exists>w. line = strip line @ w"
proof -
  from assms have "dropWhile isspace line = line"
    by (cases line) (auto simp: starts_with_space_def)
  then have s: "strip line = rev (dropWhile isspace (rev line))"
    by (simp add: strip_def)
  have "rev line = takeWhile isspace (rev line) @ dropWhile isspace (rev line)" by simp
  then have "line = rev (dropWhile isspace (rev line)) @ rev (takeWhile isspace (rev line))"
    by (metis rev_append rev_rev_ident)
  with s show ?thesis by metis
qed

lemma take4_split_strip:
  assumes "\<not> starts_with_space line" and "5 \<le> length (split tab (strip line))"
  shows "take 4 (split tab line) = take 4 (split tab (strip line))"
proof -
  from strip_suffix [OF assms(1)] obtain w where w: "line = strip line @ w" by blast
  from assms(2) have "4 < length (split tab (strip line))" by simp
  from take_split_append [OF this, of w] w show ?thesis by simp
qed

lemma read_lines_skip_comments:
  "read_lines comment True us fh
   = read_lines comment False us (dropWhile (\<lambda>line. startswith line comment) fh)"
proof (induction fh)
  case Nil
  show ?case by simp
next
  case (Cons line fh)
  then show ?case by (cases "read_line us line") simp
qed

lemma read_lines_decided:
  "read_lines comment False (Some b) fh
   = map (\<lambda>line. if b then split tab (strip line) else split tab line) fh"
  by (induction fh) (auto simp: read_line_def)

lemma read_lines_undecided:
  "read_lines comment False None (first # rest)
   = split tab (strip first)
     # read_lines comment False (Some (length (split tab (strip first)) = 4)) rest"
  by (simp add: read_line_def)

lemma trim_safe_rows:
  assumes "trim_safe comment fragments"
  shows "map (take 4) (read_lines comment True None fragments)
         = map (take 4) (read_lines comment True (Some True) fragments)"
proof (cases "dropWhile (\<lambda>line. startswith line comment) fragments")
  case Nil
  show ?thesis unfolding read_lines_skip_comments Nil by simp
next
  case (Cons first rest)
  show ?thesis
  proof (cases "length (split tab (strip first)) = 4")
    case True
    show ?thesis
      unfolding read_lines_skip_comments Cons read_lines_undecided read_lines_decided
      using True by simp
  next
    case False
    with assms Cons
    have "\<forall>line \<in> set rest. \<not> starts_with_space line \<and> 5 \<le> length (split tab (strip line))"
      by (simp add: trim_safe_def list_all_iff)
    then have "map (take 4) (map (split tab) rest)
               = map (take 4) (map (\<lambda>line. split tab (strip line)) rest)"
      by (simp add: take4_split_strip)
    then show ?thesis
      unfolding read_lines_skip_comments Cons read_lines_undecided read_lines_decided
      using False by simp
  qed
qed

lemma process_take4:
  "process features valid_bcs cm bcm idx tbl (take 4 line_split)
   = process features valid_bcs cm bcm idx tbl line_split"
proof (cases "3 < length line_split")
  case False
  then show ?thesis by (simp add: process_def)
next
  case True
  then have "3 < length (take 4 line_split)" "take 4 line_split ! 3 = line_split ! 3"
    "take 4 line_split ! 0 = line_split ! 0" "take 4 line_split ! 1 = line_split ! 1"
    "take 4 line_split ! 2 = line_split ! 2"
    by simp_all
  then show ?thesis using True
    by (simp add: process_def intervals_def split: option.split sum.split)
qed

lemma scan_take4:
  "scan features valid_bcs cm bcm idx tbl (map (take 4) rows)
   = scan features valid_bcs cm bcm idx tbl rows"
  by (induction rows arbitrary: idx tbl)
     (simp_all add: process_take4 split: sum.split prod.split ctl.split)

lemma count_strip_all_scan:
  "count_strip_all fragments features valid_bcs fast comment =
   map_sum id (\<lambda>(c, idx, tbl). tbl)
     (scan features valid_bcs (build_chrom_mapping features) (build_bc_mapping valid_bcs) 0
        (new_table fast (length valid_bcs) (length features))
        (read_lines comment True (Some True) fragments))"
proof -
  let ?s = "(count_init features valid_bcs fast)\<lparr>use_strip := Some True\<rparr>"
  let ?loop = "count_loop features valid_bcs (build_chrom_mapping features)
      (build_bc_mapping valid_bcs) comment ?s fragments"
  have h: "map_sum id (\<lambda>(c, idx, tbl). tbl)
             (map_sum id (\<lambda>(c, s'). (c, feature_idx s', count_mtx s')) r)
        = map_sum id (\<lambda>(c, s). count_mtx s) r" for r :: "error + (ctl \<times> scan_state)"
    by (cases r) (auto split: prod.splits)
  have f: "scan features valid_bcs (build_chrom_mapping features) (build_bc_mapping valid_bcs) 0
        (new_table fast (length valid_bcs) (length features))
        (read_lines comment True (Some True) fragments)
      = map_sum id (\<lambda>(c, s'). (c, feature_idx s', count_mtx s')) ?loop"
    using count_loop_scan [of features valid_bcs "build_chrom_mapping features"
        "build_bc_mapping valid_bcs" comment ?s fragments]
    by (simp add: count_init_def)
  show ?thesis unfolding f h count_strip_all_def ..
qed

lemma get_barcodes_strip_all_rows:
  "get_barcodes_strip_all fragments comment =
     (if \<forall>line_split \<in> set (read_lines comment True (Some True) fragments). 3 < length line_split
      then Inr ((\<lambda>line_split. line_split ! 3) ` set (read_lines comment True (Some True) fragments))
      else Inl IndexError)"
  unfolding get_barcodes_strip_all_def
  by (subst get_barcodes_loop_rows) simp

lemma take4_facts:
  assumes "take 4 x = take 4 y"
  shows "(3 < length x) = (3 < length y) \<and> (3 < length x \<longrightarrow> x ! 3 = y ! 3)"
proof -
  from assms have "length (take 4 x) = length (take 4 y)" by simp
  then have len: "(3 < length x) = (3 < length y)" by auto
  have "x ! 3 = y ! 3" if "3 < length x"
  proof -
    have "x ! 3 = take 4 x ! 3" by simp
    also have "\<dots> = take 4 y ! 3" by (simp only: assms)
    also have "\<dots> = y ! 3" by simp
    finally show ?thesis .
  qed
  with len show ?thesis by blast
qed

lemma barcodes_take4:
  fixes rows rows' :: "string list list"
  assumes "map (take 4) rows = map (take 4) rows'"
  shows "(\<forall>r \<in> set rows. 3 < length r) = (\<forall>r \<in> set rows'. 3 < length r) \<and>
         ((\<forall>r \<in> set rows. 3 < length r) \<longrightarrow> (\<lambda>r. r ! 3) ` set rows = (\<lambda>r. r ! 3) ` set rows')"
proof -
  from assms have "length rows = length rows'" by (rule map_eq_imp_length_eq)
  then show ?thesis using assms
  proof (induction rows rows' rule: list_induct2)
    case Nil
    show ?case by simp
  next
    case (Cons x xs y ys)
    from Cons.prems have "take 4 x = take 4 y" "map (take 4) xs = map (take 4) ys" by simp_all
    from take4_facts [OF this(1)] Cons.IH [OF this(2)] show ?case by auto
  qed
qed

text \<open>
  A stream on which the decision does matter: the first data line has five fields, so no
  later line is stripped, and the barcode of a later line of four fields keeps its
  newline. \<^verbatim>\<open>get_barcodes\<close> then returns two barcodes where the stripping reader
  returns one, and \<^verbatim>\<open>count\<close> misses a hit.
\<close>

theorem trim_decision_counterexample:
  "get_barcodes [tsv_line [''chr1'', ''1'', ''2'', ''bc1'', ''5''],
                 tsv_line [''chr1'', ''3'', ''4'', ''bc1'']] ''#''
     = Inr {''bc1'', ''bc1'' @ [CHR 0x0A]} \<and>
   get_barcodes_strip_all [tsv_line [''chr1'', ''1'', ''2'', ''bc1'', ''5''],
                 tsv_line [''chr1'', ''3'', ''4'', ''bc1'']] ''#''
     = Inr {''bc1''} \<and>
   count [tsv_line [''chr1'', ''1'', ''2'', ''bc1'', ''5''],
          tsv_line [''chr1'', ''3'', ''4'', ''bc1'']] [(''chr1'', 0, 100)] [''bc1''] True ''#''
     = Inr (Dense [[1]]) \<and>
   count_strip_all [tsv_line [''chr1'', ''1'', ''2'', ''bc1'', ''5''],
          tsv_line [''chr1'', ''3'', ''4'', ''bc1'']] [(''chr1'', 0, 100)] [''bc1''] True ''#''
     = Inr (Dense [[2]])"
  by code_simp

text \<open>
  C8. The trim decision has no effect on a stream whose first data line has four fields
  when stripped, or whose later lines all start with a character that is not whitespace
  and have at least five fields when stripped: there \<^verbatim>\<open>get_barcodes\<close> and
  \<^verbatim>\<open>count\<close> return the barcodes, the table or the exception of the reader that strips
  every line.
\<close>

theorem trim_decision_harmless:
  assumes "trim_safe comment fragments"
  shows "get_barcodes fragments comment = get_barcodes_strip_all fragments comment \<and>
         count fragments features valid_bcs fast comment
           = count_strip_all fragments features valid_bcs fast comment"
proof
  note rows = trim_safe_rows [OF assms]
  from barcodes_take4 [OF rows]
  show "get_barcodes fragments comment = get_barcodes_strip_all fragments comment"
    by (auto simp: get_barcodes_rows get_barcodes_strip_all_rows line_splits_def)
  let ?scan = "scan features valid_bcs (build_chrom_mapping features) (build_bc_mapping valid_bcs) 0
        (new_table fast (length valid_bcs) (length features))"
  have "?scan (read_lines comment True None fragments)
        = ?scan (map (take 4) (read_lines comment True None fragments))"
    by (simp add: scan_take4)
  also have "\<dots> = ?scan (map (take 4) (read_lines comment True (Some True) fragments))"
    by (simp only: rows)
  also have "\<dots> = ?scan (read_lines comment True (Some True) fragments)"
    by (simp add: scan_take4)
  finally show "count fragments features valid_bcs fast comment
           = count_strip_all fragments features valid_bcs fast comment"
    by (simp add: count_scan count_strip_all_scan line_splits_def)
qed

theorem trim_decision_harmless_witness:
  "trim_safe ''#'' [''# header'', tsv_line [''chr1'', ''1'', ''2'', ''bc1'', ''5''],
                    tsv_line [''chr1'', ''3'', ''4'', ''bc2'', ''1'']] \<and>
   get_barcodes [''# header'', tsv_line [''chr1'', ''1'', ''2'', ''bc1'', ''5''],
                    tsv_line [''chr1'', ''3'', ''4'', ''bc2'', ''1'']] ''#'' = Inr {''bc1'', ''bc2''} \<and>
   count_strip_all [''# header'', tsv_line [''chr1'', ''1'', ''2'', ''bc1'', ''5''],
                    tsv_line [''chr1'', ''3'', ''4'', ''bc2'', ''1'']]
     [(''chr1'', 0, 100)] [''bc1'', ''bc2''] True ''#'' = Inr (Dense [[1], [1]])"
proof -
  let ?fr = "[''# header'', tsv_line [''chr1'', ''1'', ''2'', ''bc1'', ''5''],
              tsv_line [''chr1'', ''3'', ''4'', ''bc2'', ''1'']]"
  have safe: "trim_safe ''#'' ?fr" by code_simp
  have g: "get_barcodes_strip_all ?fr ''#'' = Inr {''bc1'', ''bc2''}" by code_simp
  have c: "count ?fr [(''chr1'', 0, 100)] [''bc1'', ''bc2''] True ''#'' = Inr (Dense [[1], [1]])"
    by code_simp
  from trim_decision_harmless [OF safe, of "[(''chr1'', 0, 100)]" "[''bc1'', ''bc2'']" True] g c safe
  show ?thesis by simp
qed

section \<open>The chromosome numbers of a grouped feature list\<close>

lemma chrom_mapping_loop_keeps:
  "m x = Some r \<Longrightarrow> chrom_mapping_loop cs m c x = Some r"
proof (induction cs arbitrary: m c)
  case Nil
  then show ?case by simp
next
  case (Cons a cs)
  show ?case
  proof (cases "m a = None")
    case True
    then have step: "chrom_mapping_loop (a # cs) m c = chrom_mapping_loop cs (m(a \<mapsto> c)) (c + 1)"
      by simp
    from True Cons.prems have "(m(a \<mapsto> c)) x = Some r" by auto
    then show ?thesis unfolding step by (rule Cons.IH)
  next
    case False
    then have step: "chrom_mapping_loop (a # cs) m c = chrom_mapping_loop cs m c" by auto
    show ?thesis unfolding step using Cons.prems by (rule Cons.IH)
  qed
qed

lemma chrom_mapping_loop_dom:
  "chrom_mapping_loop cs m c x \<noteq> None \<longleftrightarrow> m x \<noteq> None \<or> x \<in> set cs"
proof (induction cs arbitrary: m c)
  case Nil
  show ?case by simp
next
  case (Cons a cs)
  show ?case
  proof (cases "m a = None")
    case True
    then have step: "chrom_mapping_loop (a # cs) m c = chrom_mapping_loop cs (m(a \<mapsto> c)) (c + 1)"
      by simp
    show ?thesis unfolding step Cons.IH using True by auto
  next
    case False
    then have step: "chrom_mapping_loop (a # cs) m c = chrom_mapping_loop cs m c" by auto
    show ?thesis unfolding step Cons.IH using False by auto
  qed
qed

lemma chrom_mapping_loop_inj:
  assumes "\<forall>x r. m x = Some r \<longrightarrow> r < c"
    and "\<forall>x y r. m x = Some r \<and> m y = Some r \<longrightarrow> x = y"
  shows "\<forall>x y r. chrom_mapping_loop cs m c x = Some r \<and> chrom_mapping_loop cs m c y = Some r
           \<longrightarrow> x = y"
  using assms
proof (induction cs arbitrary: m c)
  case Nil
  then show ?case by simp
next
  case (Cons a cs)
  show ?case
  proof (cases "m a = None")
    case False
    then have eq: "chrom_mapping_loop (a # cs) m c = chrom_mapping_loop cs m c" by auto
    show ?thesis unfolding eq by (rule Cons.IH [OF Cons.prems])
  next
    case True
    let ?m = "m(a \<mapsto> c)"
    have b: "\<forall>x r. ?m x = Some r \<longrightarrow> r < c + 1"
      using Cons.prems(1) by (auto simp: less_Suc_eq)
    have i: "\<forall>x y r. ?m x = Some r \<and> ?m y = Some r \<longrightarrow> x = y"
      using Cons.prems by (auto split: if_splits)
    have eq: "chrom_mapping_loop (a # cs) m c = chrom_mapping_loop cs ?m (c + 1)"
      using True by simp
    show ?thesis unfolding eq by (rule Cons.IH [OF b i])
  qed
qed

lemma chrom_mapping_loop_sorted:
  assumes "grouped cs"
    and "\<forall>x r. m x = Some r \<longrightarrow> r < c"
    and "\<forall>x \<in> set cs. \<forall>r. m x = Some r \<longrightarrow> x = hd cs \<and> Suc r = c"
  shows "sorted_wrt (\<lambda>x y. the (chrom_mapping_loop cs m c x) \<le> the (chrom_mapping_loop cs m c y)) cs
         \<and> (\<forall>x \<in> set cs. c \<le> Suc (the (chrom_mapping_loop cs m c x)))"
  using assms
proof (induction cs arbitrary: m c)
  case Nil
  show ?case by simp
next
  case (Cons a cs)
  from Cons.prems(1) have g: "grouped cs" and front: "a \<in> set cs \<longrightarrow> hd cs = a"
    by (cases cs; auto)+
  show ?case
  proof (cases "m a = None")
    case True
    define m' where "m' = m(a \<mapsto> c)"
    define M where "M = chrom_mapping_loop cs m' (c + 1)"
    have eq: "chrom_mapping_loop (a # cs) m c = M"
      using True by (simp add: M_def m'_def)
    have b: "\<forall>x r. m' x = Some r \<longrightarrow> r < c + 1"
      using Cons.prems(2) by (auto simp: less_Suc_eq m'_def)
    have f: "\<forall>x \<in> set cs. \<forall>r. m' x = Some r \<longrightarrow> x = hd cs \<and> Suc r = c + 1"
    proof (intro ballI allI impI)
      fix x r assume x: "x \<in> set cs" and r: "m' x = Some r"
      show "x = hd cs \<and> Suc r = c + 1"
      proof (cases "x = a")
        case True
        with x front r show ?thesis by (simp add: m'_def)
      next
        case False
        with r have "m x = Some r" by (simp add: m'_def)
        with x Cons.prems(3) have "x = a" by simp
        with False show ?thesis by simp
      qed
    qed
    note ih = Cons.IH [OF g b f, folded M_def]
    from ih have so: "sorted_wrt (\<lambda>x y. the (M x) \<le> the (M y)) cs" by blast
    from ih have lo: "\<forall>x \<in> set cs. c \<le> the (M x)" by simp
    have a: "M a = Some c"
      unfolding M_def by (rule chrom_mapping_loop_keeps) (simp add: m'_def)
    have "sorted_wrt (\<lambda>x y. the (M x) \<le> the (M y)) (a # cs)"
      using so lo a by simp
    moreover have "\<forall>x \<in> set (a # cs). c \<le> Suc (the (M x))"
      using lo a by (auto simp: le_Suc_eq)
    ultimately show ?thesis unfolding eq by blast
  next
    case False
    then obtain r where r: "m a = Some r" by auto
    with Cons.prems(3) have c: "Suc r = c" by simp
    define M where "M = chrom_mapping_loop cs m c"
    have eq: "chrom_mapping_loop (a # cs) m c = M" using r by (simp add: M_def)
    have f: "\<forall>x \<in> set cs. \<forall>r. m x = Some r \<longrightarrow> x = hd cs \<and> Suc r = c"
    proof (intro ballI allI impI)
      fix x r' assume x: "x \<in> set cs" and r': "m x = Some r'"
      with Cons.prems(3) have "x = a" "Suc r' = c" by simp_all
      with x front show "x = hd cs \<and> Suc r' = c" by simp
    qed
    note ih = Cons.IH [OF g Cons.prems(2) f, folded M_def]
    from ih have so: "sorted_wrt (\<lambda>x y. the (M x) \<le> the (M y)) cs" by blast
    from ih c have lo: "\<forall>x \<in> set cs. r \<le> the (M x)" by auto
    have a: "M a = Some r"
      unfolding M_def using r by (rule chrom_mapping_loop_keeps)
    have "sorted_wrt (\<lambda>x y. the (M x) \<le> the (M y)) (a # cs)"
      using so lo a by simp
    moreover have "\<forall>x \<in> set (a # cs). c \<le> Suc (the (M x))"
      using lo a c by auto
    ultimately show ?thesis unfolding eq by blast
  qed
qed

lemma ranks_ok_build:
  assumes "grouped (map fchrom features)"
  shows "ranks_ok (build_chrom_mapping features) features"
proof -
  let ?cs = "map fchrom features"
  let ?M = "chrom_mapping_loop ?cs Map.empty 0"
  have d: "\<forall>f \<in> set features. ?M (fchrom f) \<noteq> None"
    using chrom_mapping_loop_dom [of ?cs Map.empty 0] by auto
  have i: "\<forall>x y r. ?M x = Some r \<and> ?M y = Some r \<longrightarrow> x = y"
    by (rule chrom_mapping_loop_inj) simp_all
  have o: "\<forall>x r. ?M x = Some r \<longrightarrow> x \<in> fchrom ` set features"
    using chrom_mapping_loop_dom [of ?cs Map.empty 0] by auto
  from chrom_mapping_loop_sorted [OF assms, of Map.empty 0]
  have "sorted_wrt (\<lambda>x y. the (?M x) \<le> the (?M y)) ?cs" by simp
  then have s: "sorted_wrt (\<lambda>f g. rank_of ?M f \<le> rank_of ?M g) features"
    by (simp add: sorted_wrt_map rank_of_def)
  from d i o s show ?thesis
    unfolding ranks_ok_def build_chrom_mapping_def by blast
qed

lemma stops_bracketed_from_nth:
  assumes "stops_bracketed_from earlier later"
    and "c < m" and "m < k" and "k < length (earlier @ later)" and "length earlier \<le> m"
    and "fchrom ((earlier @ later) ! c) = fchrom ((earlier @ later) ! m)"
    and "fchrom ((earlier @ later) ! k) = fchrom ((earlier @ later) ! m)"
  shows "fstop ((earlier @ later) ! c) \<le> fstop ((earlier @ later) ! m) \<or>
         fstop ((earlier @ later) ! k) \<le> fstop ((earlier @ later) ! m)"
  using assms
proof (induction later arbitrary: earlier)
  case Nil
  then show ?case by simp
next
  case (Cons f later)
  show ?case
  proof (cases "m = length earlier")
    case True
    then have m: "(earlier @ f # later) ! m = f" by simp
    from True Cons.prems(2) have c: "(earlier @ f # later) ! c \<in> set earlier"
      by (simp add: nth_append)
    from True Cons.prems(3,4) have k: "(earlier @ f # later) ! k \<in> set later"
      by (auto simp: nth_append nth_Cons split: nat.splits)
    from Cons.prems(1)
    have "(\<forall>g \<in> set earlier. fchrom g = fchrom f \<longrightarrow> fstop g \<le> fstop f) \<or>
          (\<forall>g \<in> set later. fchrom g = fchrom f \<longrightarrow> fstop g \<le> fstop f)"
      by (simp add: list_all_iff)
    with c k Cons.prems(6,7) show ?thesis unfolding m by blast
  next
    case False
    with Cons.prems(5) have len: "length (earlier @ [f]) \<le> m" by simp
    have eq: "(earlier @ [f]) @ later = earlier @ f # later" by simp
    from Cons.prems(1) have sb: "stops_bracketed_from (earlier @ [f]) later" by simp
    from Cons.IH [OF sb Cons.prems(2,3) _ len] Cons.prems(4,6,7)
    show ?thesis unfolding eq by simp
  qed
qed

lemma intervals_ordered_intro:
  assumes "features_ordered features" and "stops_bracketed features"
  shows "intervals_ordered features"
proof -
  from assms(1) have
    a: "sorted_wrt (\<lambda>f g. fchrom f = fchrom g \<longrightarrow>
                    fstart f < fstart g \<or> (fstart f = fstart g \<and> fstop f \<le> fstop g)) features"
    by (simp add: features_ordered_def)
  have "sorted_wrt (\<lambda>f g. fchrom f = fchrom g \<longrightarrow> fstart f \<le> fstart g) features"
    unfolding sorted_wrt_iff_nth_less
  proof (intro allI impI)
    fix i j assume "i < j" "j < length features" "fchrom (features ! i) = fchrom (features ! j)"
    with a show "fstart (features ! i) \<le> fstart (features ! j)"
      unfolding sorted_wrt_iff_nth_less by fastforce
  qed
  moreover have "fstop (features ! c) \<le> fstop (features ! m) \<or>
                 fstop (features ! k) \<le> fstop (features ! m)"
    if "c < m \<and> m < k \<and> k < length features \<and>
        fchrom (features ! c) = fchrom (features ! m) \<and>
        fchrom (features ! k) = fchrom (features ! m)" for c m k
    using stops_bracketed_from_nth [of "[]" features c m k] assms(2) that
    by (simp add: stops_bracketed_def)
  ultimately show ?thesis unfolding intervals_ordered_def by blast
qed

section \<open>What the three inner loops compute\<close>

lemma chrom_rank_ok:
  assumes "ranks_ok cm features" and "k < length features"
  shows "chrom_rank cm features k = Inr (rank_of cm (features ! k))"
proof -
  from assms have "cm (fchrom (features ! k)) \<noteq> None"
    by (simp add: ranks_ok_def)
  with assms(2) show ?thesis
    by (auto simp: chrom_rank_def rank_of_def)
qed

lemma skip_chroms_spec:
  assumes ro: "ranks_ok cm features"
  shows "\<exists>idx'. skip_chroms cm features ci idx = Inr idx' \<and> idx \<le> idx' \<and>
           (idx \<le> length features \<longrightarrow> idx' \<le> length features) \<and>
           (\<forall>k. idx \<le> k \<and> k < idx' \<longrightarrow> rank_of cm (features ! k) < ci) \<and>
           (idx' < length features \<longrightarrow> ci \<le> rank_of cm (features ! idx'))"
proof (induction "length features - idx" arbitrary: idx)
  case 0
  note u = skip_chroms.simps [of cm features ci idx]
  from 0 show ?case unfolding u by simp
next
  case (Suc n)
  note u = skip_chroms.simps [of cm features ci idx]
  from Suc.hyps(2) have lt: "idx < length features" by simp
  note cr = chrom_rank_ok [OF ro lt]
  show ?case
  proof (cases "ci > rank_of cm (features ! idx)")
    case False
    with lt cr show ?thesis unfolding u by simp
  next
    case True
    from Suc.hyps(2) have "n = length features - (idx + 1)" by simp
    from Suc.hyps(1) [OF this] obtain idx' where
      s: "skip_chroms cm features ci (idx + 1) = Inr idx'" and le: "idx + 1 \<le> idx'"
      and len: "idx' \<le> length features"
      and passed: "\<forall>k. idx + 1 \<le> k \<and> k < idx' \<longrightarrow> rank_of cm (features ! k) < ci"
      and stop: "idx' < length features \<longrightarrow> ci \<le> rank_of cm (features ! idx')"
      using lt by auto
    have "\<forall>k. idx \<le> k \<and> k < idx' \<longrightarrow> rank_of cm (features ! k) < ci"
    proof (intro allI impI)
      fix k assume k: "idx \<le> k \<and> k < idx'"
      show "rank_of cm (features ! k) < ci"
      proof (cases "k = idx")
        case True
        with \<open>ci > rank_of cm (features ! idx)\<close> show ?thesis by simp
      next
        case False
        with k passed show ?thesis by simp
      qed
    qed
    with s le len stop lt cr True show ?thesis unfolding u by simp
  qed
qed

lemma skip_features_spec:
  assumes ro: "ranks_ok cm features"
  shows "\<exists>idx'. skip_features cm features ci start idx = Inr idx' \<and> idx \<le> idx' \<and>
           (idx \<le> length features \<longrightarrow> idx' \<le> length features) \<and>
           (\<forall>k. idx \<le> k \<and> k < idx' \<longrightarrow>
              fstop (features ! k) < start \<and> rank_of cm (features ! k) = ci) \<and>
           (idx' < length features \<longrightarrow>
              \<not> (fstop (features ! idx') < start \<and> rank_of cm (features ! idx') = ci))"
proof (induction "length features - idx" arbitrary: idx)
  case 0
  note u = skip_features.simps [of cm features ci start idx]
  from 0 show ?case unfolding u by simp
next
  case (Suc n)
  note u = skip_features.simps [of cm features ci start idx]
  from Suc.hyps(2) have lt: "idx < length features" by simp
  note cr = chrom_rank_ok [OF ro lt]
  show ?case
  proof (cases "fstop (features ! idx) < start \<and> rank_of cm (features ! idx) = ci")
    case False
    with lt cr show ?thesis unfolding u by auto
  next
    case True
    from Suc.hyps(2) have "n = length features - (idx + 1)" by simp
    from Suc.hyps(1) [OF this] obtain idx' where
      s: "skip_features cm features ci start (idx + 1) = Inr idx'" and le: "idx + 1 \<le> idx'"
      and len: "idx' \<le> length features"
      and passed: "\<forall>k. idx + 1 \<le> k \<and> k < idx' \<longrightarrow>
              fstop (features ! k) < start \<and> rank_of cm (features ! k) = ci"
      and stop: "idx' < length features \<longrightarrow>
              \<not> (fstop (features ! idx') < start \<and> rank_of cm (features ! idx') = ci)"
      using lt by auto
    have "\<forall>k. idx \<le> k \<and> k < idx' \<longrightarrow>
              fstop (features ! k) < start \<and> rank_of cm (features ! k) = ci"
    proof (intro allI impI)
      fix k assume k: "idx \<le> k \<and> k < idx'"
      show "fstop (features ! k) < start \<and> rank_of cm (features ! k) = ci"
      proof (cases "k = idx")
        case True
        with \<open>fstop (features ! idx) < start \<and> rank_of cm (features ! idx) = ci\<close>
        show ?thesis by simp
      next
        case False
        with k passed show ?thesis by simp
      qed
    qed
    with s le len stop lt cr True show ?thesis unfolding u by simp
  qed
qed

lemma follow_up_spec:
  assumes ro: "ranks_ok cm features" and bc: "bcm bc = Some i" and i: "i < n_bcs"
  shows "table_ok n_bcs (length features) tbl \<Longrightarrow>
         \<exists>m tbl'. follow_up cm bcm features bc ci start stop tmp tbl = Inr tbl' \<and>
           table_ok n_bcs (length features) tbl' \<and> tmp \<le> m \<and>
           (tmp \<le> length features \<longrightarrow> m \<le> length features) \<and>
           (\<forall>k. tmp \<le> k \<and> k < m \<longrightarrow>
              rank_of cm (features ! k) = ci \<and>
              fstart (features ! k) \<le> stop \<and> start \<le> fstop (features ! k)) \<and>
           (m < length features \<longrightarrow>
              \<not> (rank_of cm (features ! m) = ci \<and>
                 fstart (features ! m) \<le> stop \<and> start \<le> fstop (features ! m))) \<and>
           (\<forall>r < n_bcs. \<forall>k < length features.
              cell tbl' r k = cell tbl r k + (if r = i \<and> tmp \<le> k \<and> k < m then 1 else 0))"
proof (induction "length features - tmp" arbitrary: tmp tbl)
  case 0
  note u = follow_up.simps [of cm bcm features bc ci start stop tmp tbl]
  from 0 have "follow_up cm bcm features bc ci start stop tmp tbl = Inr tbl"
    unfolding u by simp
  with 0 show ?case by (intro exI [of _ tmp] exI [of _ tbl]) auto
next
  case (Suc n)
  note u = follow_up.simps [of cm bcm features bc ci start stop tmp tbl]
  from Suc.hyps(2) have lt: "tmp < length features" by simp
  note cr = chrom_rank_ok [OF ro lt]
  let ?hit = "rank_of cm (features ! tmp) = ci \<and>
              fstart (features ! tmp) \<le> stop \<and> start \<le> fstop (features ! tmp)"
  show ?case
  proof (cases ?hit)
    case False
    with lt cr have "follow_up cm bcm features bc ci start stop tmp tbl = Inr tbl"
      unfolding u by auto
    with False lt Suc.prems show ?thesis
      by (intro exI [of _ tmp] exI [of _ tbl]) auto
  next
    case True
    from increment_ok [OF Suc.prems i lt] obtain tbl1 where
      inc: "increment tbl i tmp = Inr tbl1" and ok1: "table_ok n_bcs (length features) tbl1"
      and cells1: "\<forall>r < n_bcs. \<forall>k < length features.
             cell tbl1 r k = cell tbl r k + (if r = i \<and> k = tmp then 1 else 0)"
      by blast
    from Suc.hyps(2) have "n = length features - (tmp + 1)" by simp
    from Suc.hyps(1) [OF this ok1] obtain m tbl' where
      f: "follow_up cm bcm features bc ci start stop (tmp + 1) tbl1 = Inr tbl'"
      and ok': "table_ok n_bcs (length features) tbl'" and le: "tmp + 1 \<le> m"
      and len: "m \<le> length features"
      and hits: "\<forall>k. tmp + 1 \<le> k \<and> k < m \<longrightarrow>
              rank_of cm (features ! k) = ci \<and>
              fstart (features ! k) \<le> stop \<and> start \<le> fstop (features ! k)"
      and stop: "m < length features \<longrightarrow>
              \<not> (rank_of cm (features ! m) = ci \<and>
                 fstart (features ! m) \<le> stop \<and> start \<le> fstop (features ! m))"
      and cells': "\<forall>r < n_bcs. \<forall>k < length features.
              cell tbl' r k = cell tbl1 r k + (if r = i \<and> tmp + 1 \<le> k \<and> k < m then 1 else 0)"
      using lt by auto
    have run: "follow_up cm bcm features bc ci start stop tmp tbl = Inr tbl'"
      unfolding u using lt cr True inc f bc by (auto simp: add_hit_def)
    have hits': "\<forall>k. tmp \<le> k \<and> k < m \<longrightarrow>
              rank_of cm (features ! k) = ci \<and>
              fstart (features ! k) \<le> stop \<and> start \<le> fstop (features ! k)"
    proof (intro allI impI)
      fix k assume k: "tmp \<le> k \<and> k < m"
      show "rank_of cm (features ! k) = ci \<and>
              fstart (features ! k) \<le> stop \<and> start \<le> fstop (features ! k)"
      proof (cases "k = tmp")
        case True
        with \<open>?hit\<close> show ?thesis by simp
      next
        case False
        with k hits show ?thesis by simp
      qed
    qed
    have cells: "\<forall>r < n_bcs. \<forall>k < length features.
              cell tbl' r k = cell tbl r k + (if r = i \<and> tmp \<le> k \<and> k < m then 1 else 0)"
    proof (intro allI impI)
      fix r k assume r: "r < n_bcs" and k: "k < length features"
      from cells' r k have "cell tbl' r k
          = cell tbl1 r k + (if r = i \<and> tmp + 1 \<le> k \<and> k < m then 1 else 0)" by simp
      also from cells1 r k have "cell tbl1 r k
          = cell tbl r k + (if r = i \<and> k = tmp then 1 else 0)" by simp
      finally show "cell tbl' r k
          = cell tbl r k + (if r = i \<and> tmp \<le> k \<and> k < m then 1 else 0)"
        using le by auto
    qed
    from run ok' le len hits' stop cells show ?thesis
      by (intro exI [of _ m] exI [of _ tbl']) auto
  qed
qed

section \<open>One fragment against a sorted feature list\<close>

lemma rank_mono:
  assumes "ranks_ok cm features" and "i \<le> j" and "j < length features"
  shows "rank_of cm (features ! i) \<le> rank_of cm (features ! j)"
proof (cases "i = j")
  case True
  then show ?thesis by simp
next
  case False
  with assms(2) have "i < j" by simp
  moreover from assms(1)
  have "sorted_wrt (\<lambda>f g. rank_of cm f \<le> rank_of cm g) features"
    by (simp add: ranks_ok_def)
  ultimately show ?thesis using assms(3) by (simp add: sorted_wrt_iff_nth_less)
qed

lemma rank_eq_chrom:
  assumes "ranks_ok cm features" and "i < length features" and "j < length features"
  shows "rank_of cm (features ! i) = rank_of cm (features ! j)
         \<longleftrightarrow> fchrom (features ! i) = fchrom (features ! j)"
proof -
  from assms(2,3) have "features ! i \<in> set features" "features ! j \<in> set features"
    by simp_all
  with assms(1) obtain a b where a: "cm (fchrom (features ! i)) = Some a"
    and b: "cm (fchrom (features ! j)) = Some b"
    unfolding ranks_ok_def by blast
  from assms(1) have inj: "\<forall>x y r. cm x = Some r \<and> cm y = Some r \<longrightarrow> x = y"
    by (simp add: ranks_ok_def)
  show ?thesis
  proof
    assume "rank_of cm (features ! i) = rank_of cm (features ! j)"
    with a b have "a = b" by (simp add: rank_of_def)
    with a b inj show "fchrom (features ! i) = fchrom (features ! j)" by blast
  next
    assume "fchrom (features ! i) = fchrom (features ! j)"
    then show "rank_of cm (features ! i) = rank_of cm (features ! j)"
      by (simp add: rank_of_def)
  qed
qed

lemma same_rank_ordered:
  assumes "ranks_ok cm features" and "intervals_ordered features"
    and "i \<le> j" and "j < length features"
    and "rank_of cm (features ! i) = rank_of cm (features ! j)"
  shows "fstart (features ! i) \<le> fstart (features ! j)"
proof (cases "i = j")
  case True
  then show ?thesis by simp
next
  case False
  with assms(3) have lt: "i < j" by simp
  with assms(4) have "i < length features" by simp
  from rank_eq_chrom [OF assms(1) this assms(4)] assms(5)
  have "fchrom (features ! i) = fchrom (features ! j)" by simp
  with assms(2) lt assms(4) show ?thesis
    by (simp add: intervals_ordered_def sorted_wrt_iff_nth_less)
qed

lemma same_rank_bracketed:
  assumes "ranks_ok cm features" and "intervals_ordered features"
    and "c < m" and "m < k" and "k < length features"
    and "rank_of cm (features ! c) = rank_of cm (features ! m)"
    and "rank_of cm (features ! k) = rank_of cm (features ! m)"
  shows "fstop (features ! c) \<le> fstop (features ! m) \<or>
         fstop (features ! k) \<le> fstop (features ! m)"
proof -
  from assms(3,4,5) have len: "c < length features" "m < length features" by simp_all
  from rank_eq_chrom [OF assms(1) len] assms(6)
  have "fchrom (features ! c) = fchrom (features ! m)" by simp
  moreover from rank_eq_chrom [OF assms(1) assms(5) len(2)] assms(7)
  have "fchrom (features ! k) = fchrom (features ! m)" by simp
  ultimately show ?thesis
    using assms(2,3,4,5) unfolding intervals_ordered_def by blast
qed

lemma no_hit_from:
  assumes ro: "ranks_ok cm features" and io: "intervals_ordered features"
    and idx: "idx < length features"
    and here: "ci < rank_of cm (features ! idx)
               \<or> (rank_of cm (features ! idx) = ci \<and> stop < fstart (features ! idx))"
    and k: "idx \<le> k" "k < length features"
  shows "\<not> (rank_of cm (features ! k) = ci \<and>
            fstart (features ! k) \<le> stop \<and> start \<le> fstop (features ! k))"
proof
  assume hit: "rank_of cm (features ! k) = ci \<and>
            fstart (features ! k) \<le> stop \<and> start \<le> fstop (features ! k)"
  from rank_mono [OF ro k] hit have le: "rank_of cm (features ! idx) \<le> ci" by simp
  with here have eq: "rank_of cm (features ! idx) = ci" and before: "stop < fstart (features ! idx)"
    by auto
  from same_rank_ordered [OF ro io k] eq hit
  have "fstart (features ! idx) \<le> fstart (features ! k)" by simp
  with before hit show False by simp
qed

lemma overlap_spec:
  assumes ro: "ranks_ok cm features" and io: "intervals_ordered features"
    and bc: "bcm bc = Some i" and i: "i < n_bcs"
    and ok: "table_ok n_bcs (length features) tbl"
    and idx: "idx < length features"
    and hit: "rank_of cm (features ! idx) = ci \<and>
              fstart (features ! idx) \<le> stop \<and> start \<le> fstop (features ! idx)"
  shows "\<exists>tbl'. overlap cm bcm features bc ci start stop idx tbl = Inr tbl' \<and>
           table_ok n_bcs (length features) tbl' \<and>
           (\<forall>r < n_bcs. \<forall>k < length features.
              cell tbl' r k = cell tbl r k +
                (if r = i \<and> idx \<le> k \<and> rank_of cm (features ! k) = ci \<and>
                    fstart (features ! k) \<le> stop \<and> start \<le> fstop (features ! k)
                 then 1 else 0))"
proof -
  let ?hit = "\<lambda>k. rank_of cm (features ! k) = ci \<and>
                fstart (features ! k) \<le> stop \<and> start \<le> fstop (features ! k)"
  from increment_ok [OF ok i idx] obtain tbl1 where
    inc: "increment tbl i idx = Inr tbl1" and ok1: "table_ok n_bcs (length features) tbl1"
    and cells1: "\<forall>r < n_bcs. \<forall>k < length features.
           cell tbl1 r k = cell tbl r k + (if r = i \<and> k = idx then 1 else 0)"
    by blast
  from follow_up_spec [where cm = cm and features = features and bcm = bcm and bc = bc
      and i = i and n_bcs = n_bcs and tbl = tbl1 and ci = ci and start = start
      and stop = stop and tmp = "idx + 1", OF ro bc i ok1]
  obtain m tbl' where
    f: "follow_up cm bcm features bc ci start stop (idx + 1) tbl1 = Inr tbl'"
    and ok': "table_ok n_bcs (length features) tbl'" and le: "idx + 1 \<le> m"
    and len: "m \<le> length features"
    and hits: "\<forall>k. idx + 1 \<le> k \<and> k < m \<longrightarrow> ?hit k"
    and stop: "m < length features \<longrightarrow> \<not> ?hit m"
    and cells': "\<forall>r < n_bcs. \<forall>k < length features.
            cell tbl' r k = cell tbl1 r k + (if r = i \<and> idx + 1 \<le> k \<and> k < m then 1 else 0)"
    using idx by auto
  have run: "overlap cm bcm features bc ci start stop idx tbl = Inr tbl'"
    using inc f bc by (simp add: overlap_def add_hit_def)
  have run_hits: "?hit k" if "idx \<le> k" "k < m" for k
  proof (cases "k = idx")
    case True
    with hit show ?thesis by simp
  next
    case False
    with that hits show ?thesis by simp
  qed
  have after: "\<not> ?hit k" if "m \<le> k" "k < length features" for k
  proof
    assume hk: "?hit k"
    from that have m: "m < length features" by simp
    from le have p: "idx \<le> m - 1" "m - 1 < m" "m - 1 \<le> m" by simp_all
    from run_hits [OF p(1,2)] have hp: "?hit (m - 1)" .
    from rank_mono [OF ro p(3) m] rank_mono [OF ro that] hp hk
    have rm: "rank_of cm (features ! m) = ci" by simp
    from stop m rm hk that(1) have mk: "m < k" by (cases "m = k") auto
    from same_rank_bracketed [OF ro io p(2) mk that(2)] hp hk rm
    have "fstop (features ! (m - 1)) \<le> fstop (features ! m) \<or>
          fstop (features ! k) \<le> fstop (features ! m)" by simp
    with hp hk have "start \<le> fstop (features ! m)" by auto
    with stop m rm have "stop < fstart (features ! m)" by auto
    moreover from same_rank_ordered [OF ro io that] rm hk
    have "fstart (features ! m) \<le> fstart (features ! k)" by simp
    ultimately show False using hk by simp
  qed
  have cells: "\<forall>r < n_bcs. \<forall>k < length features.
              cell tbl' r k = cell tbl r k + (if r = i \<and> idx \<le> k \<and> ?hit k then 1 else 0)"
  proof (intro allI impI)
    fix r k assume r: "r < n_bcs" and k: "k < length features"
    have iff: "(idx \<le> k \<and> k < m) \<longleftrightarrow> (idx \<le> k \<and> ?hit k)"
      using run_hits [of k] after [of k] k by (cases "k < m") auto
    from cells' r k have "cell tbl' r k
        = cell tbl1 r k + (if r = i \<and> idx + 1 \<le> k \<and> k < m then 1 else 0)" by simp
    also from cells1 r k have "cell tbl1 r k
        = cell tbl r k + (if r = i \<and> k = idx then 1 else 0)" by simp
    finally have "cell tbl' r k
        = cell tbl r k + (if r = i \<and> idx \<le> k \<and> k < m then 1 else 0)"
      using le by auto
    with iff show "cell tbl' r k
        = cell tbl r k + (if r = i \<and> idx \<le> k \<and> ?hit k then 1 else 0)"
      by auto
  qed
  from run ok' cells show ?thesis by blast
qed

lemma intervals_spec:
  assumes ro: "ranks_ok cm features" and io: "intervals_ordered features"
    and bc: "bcm bc = Some i" and i: "i < n_bcs"
    and ok: "table_ok n_bcs (length features) tbl"
    and s: "py_int (line_split ! 1) = Inr start" and e: "py_int (line_split ! 2) = Inr stop"
    and idx: "idx < length features" and here: "rank_of cm (features ! idx) = ci"
  shows "\<exists>c idx' tbl'.
           intervals cm bcm features line_split bc ci idx tbl = Inr (c, idx', tbl') \<and>
           table_ok n_bcs (length features) tbl' \<and> idx \<le> idx' \<and>
           (\<forall>k. idx \<le> k \<and> k < idx' \<and> k < length features \<longrightarrow>
              rank_of cm (features ! k) = ci \<and> fstop (features ! k) < start) \<and>
           (\<forall>r < n_bcs. \<forall>k < length features.
              cell tbl' r k = cell tbl r k +
                (if r = i \<and> idx \<le> k \<and> rank_of cm (features ! k) = ci \<and>
                    fstart (features ! k) \<le> stop \<and> start \<le> fstop (features ! k)
                 then 1 else 0))"
proof -
  let ?hit = "\<lambda>k. rank_of cm (features ! k) = ci \<and>
                fstart (features ! k) \<le> stop \<and> start \<le> fstop (features ! k)"
  let ?goal = "\<lambda>c idx' tbl'.
           intervals cm bcm features line_split bc ci idx tbl = Inr (c, idx', tbl') \<and>
           table_ok n_bcs (length features) tbl' \<and> idx \<le> idx' \<and>
           (\<forall>k. idx \<le> k \<and> k < idx' \<and> k < length features \<longrightarrow>
              rank_of cm (features ! k) = ci \<and> fstop (features ! k) < start) \<and>
           (\<forall>r < n_bcs. \<forall>k < length features.
              cell tbl' r k = cell tbl r k + (if r = i \<and> idx \<le> k \<and> ?hit k then 1 else 0))"
  show ?thesis
  proof (cases "stop < fstart (features ! idx)")
    case True
    have run: "intervals cm bcm features line_split bc ci idx tbl = Inr (Continue, idx, tbl)"
      using s e idx True by (simp add: intervals_def)
    have "\<not> ?hit k" if "idx \<le> k" "k < length features" for k
      using no_hit_from [OF ro io idx _ that, of ci stop start] here True by blast
    with run ok have "?goal Continue idx tbl" by auto
    then show ?thesis by blast
  next
    case notbefore: False
    show ?thesis
    proof (cases "start > fstop (features ! idx)")
      case False
      with notbefore here have hit: "?hit idx" by simp
      from overlap_spec [where bcm = bcm and bc = bc, OF ro io bc i ok idx hit] obtain tbl' where
        ov: "overlap cm bcm features bc ci start stop idx tbl = Inr tbl'"
        and ok': "table_ok n_bcs (length features) tbl'"
        and cells: "\<forall>r < n_bcs. \<forall>k < length features.
              cell tbl' r k = cell tbl r k + (if r = i \<and> idx \<le> k \<and> ?hit k then 1 else 0)"
        by blast
      have run: "intervals cm bcm features line_split bc ci idx tbl = Inr (Continue, idx, tbl')"
        using s e idx notbefore False ov by (simp add: intervals_def)
      with ok' cells have "?goal Continue idx tbl'" by auto
      then show ?thesis by blast
    next
      case True
      from skip_features_spec [OF ro, of ci start idx] obtain idx2 where
        sf: "skip_features cm features ci start idx = Inr idx2" and le: "idx \<le> idx2"
        and len: "idx2 \<le> length features"
        and passed: "\<forall>k. idx \<le> k \<and> k < idx2 \<longrightarrow>
              fstop (features ! k) < start \<and> rank_of cm (features ! k) = ci"
        and exit: "idx2 < length features \<longrightarrow>
              \<not> (fstop (features ! idx2) < start \<and> rank_of cm (features ! idx2) = ci)"
        using idx by auto
      have nohit: "\<not> ?hit k" if "idx \<le> k" "k < idx2" for k
        using passed that by auto
      have passed': "\<forall>k. idx \<le> k \<and> k < idx2 \<and> k < length features \<longrightarrow>
              rank_of cm (features ! k) = ci \<and> fstop (features ! k) < start"
        using passed by blast
      show ?thesis
      proof (cases "idx2 < length features")
        case False
        have run: "intervals cm bcm features line_split bc ci idx tbl = Inr (Break, idx2, tbl)"
          using s e idx notbefore True sf False by (simp add: intervals_def)
        have "\<not> ?hit k" if "idx \<le> k" "k < length features" for k
          using nohit [of k] that False by simp
        with run ok le passed' have "?goal Break idx2 tbl" by auto
        then show ?thesis by blast
      next
        case in_range: True
        note cr = chrom_rank_ok [OF ro in_range]
        show ?thesis
        proof (cases "rank_of cm (features ! idx2) = ci")
          case False
          have run: "intervals cm bcm features line_split bc ci idx tbl
                     = Inr (Continue, idx2, tbl)"
            using s e idx notbefore True sf in_range cr False
            by (auto simp: intervals_def)
          from rank_mono [OF ro le in_range] here False
          have above: "ci < rank_of cm (features ! idx2)" by simp
          have "\<not> ?hit k" if "idx \<le> k" "k < length features" for k
          proof (cases "k < idx2")
            case True
            with nohit that show ?thesis by blast
          next
            case False
            then have "idx2 \<le> k" by simp
            from no_hit_from [OF ro io in_range _ this that(2), of ci stop start] above
            show ?thesis by blast
          qed
          with run ok le passed' have "?goal Continue idx2 tbl" by auto
          then show ?thesis by blast
        next
          case same: True
          with exit in_range have notpast: "\<not> fstop (features ! idx2) < start" by simp
          show ?thesis
          proof (cases "stop < fstart (features ! idx2)")
            case True
            have run: "intervals cm bcm features line_split bc ci idx tbl
                       = Inr (Continue, idx2, tbl)"
              using s e idx notbefore \<open>start > fstop (features ! idx)\<close> sf in_range cr same True
              by (auto simp: intervals_def)
            have "\<not> ?hit k" if "idx \<le> k" "k < length features" for k
            proof (cases "k < idx2")
              case True
              with nohit that show ?thesis by blast
            next
              case False
              then have "idx2 \<le> k" by simp
              from no_hit_from [OF ro io in_range _ this that(2), of ci stop start] same
                \<open>stop < fstart (features ! idx2)\<close>
              show ?thesis by blast
            qed
            with run ok le passed' have "?goal Continue idx2 tbl" by auto
            then show ?thesis by blast
          next
            case False
            with same notpast have hit: "?hit idx2" by simp
            from overlap_spec [where bcm = bcm and bc = bc, OF ro io bc i ok in_range hit] obtain tbl' where
              ov: "overlap cm bcm features bc ci start stop idx2 tbl = Inr tbl'"
              and ok': "table_ok n_bcs (length features) tbl'"
              and cells: "\<forall>r < n_bcs. \<forall>k < length features.
                 cell tbl' r k = cell tbl r k + (if r = i \<and> idx2 \<le> k \<and> ?hit k then 1 else 0)"
              by blast
            have run: "intervals cm bcm features line_split bc ci idx tbl
                       = Inr (Continue, idx2, tbl')"
              using s e idx notbefore \<open>start > fstop (features ! idx)\<close> sf in_range cr same
                False ov
              by (auto simp: intervals_def)
            have cells': "\<forall>r < n_bcs. \<forall>k < length features.
                 cell tbl' r k = cell tbl r k + (if r = i \<and> idx \<le> k \<and> ?hit k then 1 else 0)"
            proof (intro allI impI)
              fix r k assume rk: "r < n_bcs" "k < length features"
              have "(idx2 \<le> k \<and> ?hit k) \<longleftrightarrow> (idx \<le> k \<and> ?hit k)"
                using nohit [of k] le by (cases "k < idx2") auto
              with cells rk show "cell tbl' r k
                  = cell tbl r k + (if r = i \<and> idx \<le> k \<and> ?hit k then 1 else 0)"
                by auto
            qed
            from run ok' le passed' cells' have "?goal Continue idx2 tbl'" by auto
            then show ?thesis by blast
          qed
        qed
      qed
    qed
  qed
qed

lemma process_spec:
  assumes ro: "ranks_ok cm features" and io: "intervals_ordered features"
    and fr: "fragment_of line_split = Some (chrom, start, stop, bc)"
    and valid: "bc \<in> set valid_bcs"
    and bc: "bcm bc = Some i" and i: "i < n_bcs"
    and ok: "table_ok n_bcs (length features) tbl"
    and idx: "idx < length features" and ci: "cm chrom = Some ci"
  shows "\<exists>c idx' tbl'.
           process features valid_bcs cm bcm idx tbl line_split = Inr (c, idx', tbl') \<and>
           table_ok n_bcs (length features) tbl' \<and> idx \<le> idx' \<and>
           (\<forall>k. idx \<le> k \<and> k < idx' \<and> k < length features \<longrightarrow>
              rank_of cm (features ! k) < ci \<or>
              (rank_of cm (features ! k) = ci \<and> fstop (features ! k) < start)) \<and>
           (\<forall>r < n_bcs. \<forall>k < length features.
              cell tbl' r k = cell tbl r k +
                (if r = i \<and> idx \<le> k \<and> rank_of cm (features ! k) = ci \<and>
                    fstart (features ! k) \<le> stop \<and> start \<le> fstop (features ! k)
                 then 1 else 0))"
proof -
  let ?hit = "\<lambda>k. rank_of cm (features ! k) = ci \<and>
                fstart (features ! k) \<le> stop \<and> start \<le> fstop (features ! k)"
  let ?passed = "\<lambda>k. rank_of cm (features ! k) < ci \<or>
              (rank_of cm (features ! k) = ci \<and> fstop (features ! k) < start)"
  let ?goal = "\<lambda>c idx' tbl'.
           process features valid_bcs cm bcm idx tbl line_split = Inr (c, idx', tbl') \<and>
           table_ok n_bcs (length features) tbl' \<and> idx \<le> idx' \<and>
           (\<forall>k. idx \<le> k \<and> k < idx' \<and> k < length features \<longrightarrow> ?passed k) \<and>
           (\<forall>r < n_bcs. \<forall>k < length features.
              cell tbl' r k = cell tbl r k + (if r = i \<and> idx \<le> k \<and> ?hit k then 1 else 0))"
  note f = fragment_of_Some [OF fr]
  note cr = chrom_rank_ok [OF ro idx]
  from f valid ci cr
  have unfold: "process features valid_bcs cm bcm idx tbl line_split =
     (if ci < rank_of cm (features ! idx) then Inr (Continue, idx, tbl)
      else if ci > rank_of cm (features ! idx) then
        (case skip_chroms cm features ci idx of
           Inl e \<Rightarrow> Inl e
         | Inr idx1 \<Rightarrow>
             if idx1 \<ge> length features then Inr (Break, idx1, tbl)
             else intervals cm bcm features line_split bc ci idx1 tbl)
      else intervals cm bcm features line_split bc ci idx tbl)"
    by (auto simp: process_def split: sum.split)
  from f have s: "py_int (line_split ! 1) = Inr start" and e: "py_int (line_split ! 2) = Inr stop"
    by simp_all
  show ?thesis
  proof (cases "ci < rank_of cm (features ! idx)")
    case True
    then have run: "process features valid_bcs cm bcm idx tbl line_split
                    = Inr (Continue, idx, tbl)"
      by (simp add: unfold)
    have "\<not> ?hit k" if "idx \<le> k" "k < length features" for k
      using no_hit_from [OF ro io idx _ that, of ci stop start] True by blast
    with run ok have "?goal Continue idx tbl" by auto
    then show ?thesis by blast
  next
    case notless: False
    show ?thesis
    proof (cases "ci > rank_of cm (features ! idx)")
      case False
      with notless have here: "rank_of cm (features ! idx) = ci" by simp
      from intervals_spec [where bcm = bcm and bc = bc, OF ro io bc i ok s e idx here]
      obtain c idx' tbl' where
        iv: "intervals cm bcm features line_split bc ci idx tbl = Inr (c, idx', tbl')"
        and ok': "table_ok n_bcs (length features) tbl'" and le: "idx \<le> idx'"
        and passed: "\<forall>k. idx \<le> k \<and> k < idx' \<and> k < length features \<longrightarrow>
              rank_of cm (features ! k) = ci \<and> fstop (features ! k) < start"
        and cells: "\<forall>r < n_bcs. \<forall>k < length features.
              cell tbl' r k = cell tbl r k + (if r = i \<and> idx \<le> k \<and> ?hit k then 1 else 0)"
        by blast
      from iv here have run: "process features valid_bcs cm bcm idx tbl line_split
                              = Inr (c, idx', tbl')"
        by (simp add: unfold)
      from passed have "\<forall>k. idx \<le> k \<and> k < idx' \<and> k < length features \<longrightarrow> ?passed k"
        by blast
      with run ok' le cells have "?goal c idx' tbl'" by blast
      then show ?thesis by blast
    next
      case True
      from skip_chroms_spec [OF ro, of ci idx] obtain idx1 where
        sc: "skip_chroms cm features ci idx = Inr idx1" and le1: "idx \<le> idx1"
        and len1: "idx1 \<le> length features"
        and below: "\<forall>k. idx \<le> k \<and> k < idx1 \<longrightarrow> rank_of cm (features ! k) < ci"
        and exit: "idx1 < length features \<longrightarrow> ci \<le> rank_of cm (features ! idx1)"
        using idx by auto
      have nohit: "\<not> ?hit k" if "idx \<le> k" "k < idx1" for k
        using below that by auto
      show ?thesis
      proof (cases "idx1 < length features")
        case False
        with sc True have run: "process features valid_bcs cm bcm idx tbl line_split
                                = Inr (Break, idx1, tbl)"
          by (simp add: unfold)
        have "\<not> ?hit k" if "idx \<le> k" "k < length features" for k
          using nohit [of k] that False by simp
        moreover from below
        have "\<forall>k. idx \<le> k \<and> k < idx1 \<and> k < length features \<longrightarrow> ?passed k" by blast
        ultimately have "?goal Break idx1 tbl" using run ok le1 by auto
        then show ?thesis by blast
      next
        case in_range: True
        from ro ci obtain p where p: "p < length features" "fchrom (features ! p) = chrom"
          unfolding ranks_ok_def by (metis imageE in_set_conv_nth)
        with ci have rp: "rank_of cm (features ! p) = ci" by (simp add: rank_of_def)
        have "idx1 \<le> p"
        proof (rule ccontr)
          assume "\<not> idx1 \<le> p"
          then have lt: "p < idx1" by simp
          show False
          proof (cases "idx \<le> p")
            case True
            with lt below rp show False by auto
          next
            case False
            then have "p \<le> idx" by simp
            from rank_mono [OF ro this idx] rp \<open>ci > rank_of cm (features ! idx)\<close>
            show False by simp
          qed
        qed
        from rank_mono [OF ro this p(1)] rp exit in_range
        have here: "rank_of cm (features ! idx1) = ci" by simp
        from intervals_spec [where bcm = bcm and bc = bc, OF ro io bc i ok s e in_range here]
        obtain c idx' tbl' where
          iv: "intervals cm bcm features line_split bc ci idx1 tbl = Inr (c, idx', tbl')"
          and ok': "table_ok n_bcs (length features) tbl'" and le: "idx1 \<le> idx'"
          and passed: "\<forall>k. idx1 \<le> k \<and> k < idx' \<and> k < length features \<longrightarrow>
                rank_of cm (features ! k) = ci \<and> fstop (features ! k) < start"
          and cells: "\<forall>r < n_bcs. \<forall>k < length features.
                cell tbl' r k = cell tbl r k + (if r = i \<and> idx1 \<le> k \<and> ?hit k then 1 else 0)"
          by blast
        from iv sc True in_range
        have run: "process features valid_bcs cm bcm idx tbl line_split = Inr (c, idx', tbl')"
          by (simp add: unfold)
        have passed': "\<forall>k. idx \<le> k \<and> k < idx' \<and> k < length features \<longrightarrow> ?passed k"
        proof (intro allI impI)
          fix k assume k: "idx \<le> k \<and> k < idx' \<and> k < length features"
          show "?passed k"
          proof (cases "k < idx1")
            case True
            with k below show ?thesis by simp
          next
            case False
            with k passed show ?thesis by simp
          qed
        qed
        have cells': "\<forall>r < n_bcs. \<forall>k < length features.
              cell tbl' r k = cell tbl r k + (if r = i \<and> idx \<le> k \<and> ?hit k then 1 else 0)"
        proof (intro allI impI)
          fix r k assume rk: "r < n_bcs" "k < length features"
          have "(idx1 \<le> k \<and> ?hit k) \<longleftrightarrow> (idx \<le> k \<and> ?hit k)"
            using nohit [of k] le1 by (cases "k < idx1") auto
          with cells rk show "cell tbl' r k
              = cell tbl r k + (if r = i \<and> idx \<le> k \<and> ?hit k then 1 else 0)"
            by auto
        qed
        from run ok' le le1 passed' cells' have "?goal c idx' tbl'" by auto
        then show ?thesis by blast
      qed
    qed
  qed
qed

lemma overlapping_rank:
  assumes ro: "ranks_ok cm features" and k: "k < length features" and ci: "cm chrom = Some ci"
  shows "overlapping valid_bcs (features ! k) (chrom, start, stop, bc) \<longleftrightarrow>
         bc \<in> set valid_bcs \<and> rank_of cm (features ! k) = ci \<and>
         fstart (features ! k) \<le> stop \<and> start \<le> fstop (features ! k)"
proof -
  from k have "features ! k \<in> set features" by simp
  with ro obtain a where a: "cm (fchrom (features ! k)) = Some a"
    unfolding ranks_ok_def by blast
  from ro have inj: "\<forall>x y r. cm x = Some r \<and> cm y = Some r \<longrightarrow> x = y"
    by (simp add: ranks_ok_def)
  have "chrom = fchrom (features ! k) \<longleftrightarrow> rank_of cm (features ! k) = ci"
  proof
    assume "chrom = fchrom (features ! k)"
    with ci show "rank_of cm (features ! k) = ci" by (simp add: rank_of_def)
  next
    assume "rank_of cm (features ! k) = ci"
    with a have "cm (fchrom (features ! k)) = Some ci" by (simp add: rank_of_def)
    with ci inj show "chrom = fchrom (features ! k)" by blast
  qed
  then show ?thesis by auto
qed

lemma later_dead:
  assumes ro: "ranks_ok cm features" and k: "k < length features" and ci: "cm chrom = Some ci"
    and passed: "rank_of cm (features ! k) < ci \<or>
                 (rank_of cm (features ! k) = ci \<and> fstop (features ! k) < start)"
    and le: "fragment_le cm (chrom, start, stop, bc) g"
  shows "\<not> overlapping valid_bcs (features ! k) g"
proof
  assume ov: "overlapping valid_bcs (features ! k) g"
  obtain chrom' start' stop' bc' where g: "g = (chrom', start', stop', bc')"
    by (cases g)
  from k have "features ! k \<in> set features" by simp
  with ro obtain a where a: "cm (fchrom (features ! k)) = Some a"
    unfolding ranks_ok_def by blast
  from ov g have c': "chrom' = fchrom (features ! k)" and s': "start' \<le> fstop (features ! k)"
    by simp_all
  from a have ra: "rank_of cm (features ! k) = a" by (simp add: rank_of_def)
  from le g c' a ci have "ci < a \<or> (ci = a \<and> start \<le> start')" by simp
  with passed ra s' show False by auto
qed

section \<open>The whole scan on sorted inputs\<close>

lemma scan_fragments:
  assumes ro: "ranks_ok cm features" and io: "intervals_ordered features"
    and bcmv: "\<forall>bc \<in> set valid_bcs. \<exists>i < n_bcs. bcm bc = Some i"
  shows "map fragment_of rows = map Some frags \<Longrightarrow>
         sorted_wrt (fragment_le cm) frags \<Longrightarrow>
         table_ok n_bcs (length features) tbl \<Longrightarrow>
         idx < length features \<Longrightarrow>
         (\<forall>k < idx. \<forall>g \<in> set frags. \<not> overlapping valid_bcs (features ! k) g) \<Longrightarrow>
         \<exists>c idx' tbl'.
           scan features valid_bcs cm bcm idx tbl rows = Inr (c, idx', tbl') \<and>
           table_ok n_bcs (length features) tbl' \<and>
           (\<forall>r < n_bcs. \<forall>k < length features.
              cell tbl' r k = cell tbl r k +
                int (length (filter (\<lambda>g. overlapping valid_bcs (features ! k) g \<and>
                                         bcm (snd (snd (snd g))) = Some r) frags)))"
proof (induction rows arbitrary: frags idx tbl)
  case Nil
  then show ?case by simp
next
  case (Cons row rows)
  from Cons.prems(1) obtain g gs where frags: "frags = g # gs"
    and fr0: "fragment_of row = Some g" and rest: "map fragment_of rows = map Some gs"
    by (cases frags) auto
  obtain chrom start stop bc where g: "g = (chrom, start, stop, bc)" by (cases g)
  note fr = fr0 [unfolded g]
  note f = fragment_of_Some [OF fr]
  from Cons.prems(2) frags have sorted_gs: "sorted_wrt (fragment_le cm) gs"
    and later: "\<forall>g' \<in> set gs. fragment_le cm g g'" by simp_all
  from Cons.prems(5) frags
  have dead_g: "\<forall>k < idx. \<not> overlapping valid_bcs (features ! k) g"
    and dead_gs: "\<forall>k < idx. \<forall>g' \<in> set gs. \<not> overlapping valid_bcs (features ! k) g'"
    by simp_all
  let ?n = "\<lambda>r k fs. int (length (filter (\<lambda>g. overlapping valid_bcs (features ! k) g \<and>
                                         bcm (snd (snd (snd g))) = Some r) fs))"
  have step: "\<exists>c idx' tbl'.
      process features valid_bcs cm bcm idx tbl row = Inr (c, idx', tbl') \<and>
      table_ok n_bcs (length features) tbl' \<and> idx \<le> idx' \<and>
      (\<forall>k g'. idx \<le> k \<and> k < idx' \<and> k < length features \<and> g' \<in> set gs \<longrightarrow>
         \<not> overlapping valid_bcs (features ! k) g') \<and>
      (\<forall>r < n_bcs. \<forall>k < length features. cell tbl' r k = cell tbl r k + ?n r k [g])"
  proof (cases "bc \<in> set valid_bcs")
    case False
    with f have "process features valid_bcs cm bcm idx tbl row = Inr (Continue, idx, tbl)"
      by (simp add: process_def)
    moreover from False g have "\<not> overlapping valid_bcs (features ! k) g" for k by simp
    ultimately show ?thesis using Cons.prems(3) by auto
  next
    case valid: True
    with bcmv obtain i where i: "i < n_bcs" and bc: "bcm bc = Some i" by blast
    show ?thesis
    proof (cases "cm chrom")
      case None
      with f valid have "process features valid_bcs cm bcm idx tbl row = Inr (Continue, idx, tbl)"
        by (simp add: process_def)
      moreover have "\<not> overlapping valid_bcs (features ! k) g" if "k < length features" for k
      proof
        assume "overlapping valid_bcs (features ! k) g"
        with g have "chrom = fchrom (features ! k)" by simp
        moreover from that have "features ! k \<in> set features" by simp
        ultimately show False using ro None unfolding ranks_ok_def by auto
      qed
      ultimately show ?thesis using Cons.prems(3) by auto
    next
      case (Some ci)
      let ?hit = "\<lambda>k. rank_of cm (features ! k) = ci \<and>
                fstart (features ! k) \<le> stop \<and> start \<le> fstop (features ! k)"
      from process_spec [where bcm = bcm and bc = bc,
          OF ro io fr valid bc i Cons.prems(3) Cons.prems(4) Some]
      obtain c idx' tbl' where
        run: "process features valid_bcs cm bcm idx tbl row = Inr (c, idx', tbl')"
        and ok': "table_ok n_bcs (length features) tbl'" and le: "idx \<le> idx'"
        and passed: "\<forall>k. idx \<le> k \<and> k < idx' \<and> k < length features \<longrightarrow>
              rank_of cm (features ! k) < ci \<or>
              (rank_of cm (features ! k) = ci \<and> fstop (features ! k) < start)"
        and cells: "\<forall>r < n_bcs. \<forall>k < length features.
              cell tbl' r k = cell tbl r k + (if r = i \<and> idx \<le> k \<and> ?hit k then 1 else 0)"
        by blast
      have dead: "\<not> overlapping valid_bcs (features ! k) g'"
        if "idx \<le> k \<and> k < idx' \<and> k < length features \<and> g' \<in> set gs" for k g'
      proof -
        from that later have "fragment_le cm (chrom, start, stop, bc) g'" by (simp add: g)
        from later_dead [OF ro _ Some _ this, of k valid_bcs] that passed
        show ?thesis by blast
      qed
      have cells': "\<forall>r < n_bcs. \<forall>k < length features. cell tbl' r k = cell tbl r k + ?n r k [g]"
      proof (intro allI impI)
        fix r k assume rk: "r < n_bcs" "k < length features"
        from overlapping_rank [OF ro rk(2) Some, of valid_bcs start stop bc] valid
        have ov: "overlapping valid_bcs (features ! k) g \<longleftrightarrow> ?hit k" by (simp add: g)
        from dead_g ov have "idx \<le> k \<or> \<not> ?hit k" by (cases "idx \<le> k") auto
        then have "(r = i \<and> idx \<le> k \<and> ?hit k)
                   \<longleftrightarrow> (overlapping valid_bcs (features ! k) g \<and> bcm bc = Some r)"
          using ov bc by auto
        with cells rk show "cell tbl' r k = cell tbl r k + ?n r k [g]"
          by (simp add: g)
      qed
      from run ok' le dead cells' show ?thesis by blast
    qed
  qed
  then obtain c idx' tbl' where
    run: "process features valid_bcs cm bcm idx tbl row = Inr (c, idx', tbl')"
    and ok': "table_ok n_bcs (length features) tbl'" and le: "idx \<le> idx'"
    and dead: "\<forall>k g'. idx \<le> k \<and> k < idx' \<and> k < length features \<and> g' \<in> set gs \<longrightarrow>
         \<not> overlapping valid_bcs (features ! k) g'"
    and cells: "\<forall>r < n_bcs. \<forall>k < length features. cell tbl' r k = cell tbl r k + ?n r k [g]"
    by blast
  have dead': "\<forall>k. k < idx' \<and> k < length features \<longrightarrow>
                 (\<forall>g' \<in> set gs. \<not> overlapping valid_bcs (features ! k) g')"
  proof (intro allI impI)
    fix k assume k: "k < idx' \<and> k < length features"
    show "\<forall>g' \<in> set gs. \<not> overlapping valid_bcs (features ! k) g'"
    proof (cases "k < idx")
      case True
      with dead_gs show ?thesis by blast
    next
      case False
      then have "idx \<le> k" by simp
      with k dead show ?thesis by blast
    qed
  qed
  have split: "?n r k frags = ?n r k [g] + ?n r k gs" for r k
    by (simp add: frags)
  note pi = process_idx [OF run]
  show ?case
  proof (cases c)
    case Break
    with pi have past: "length features \<le> idx'" by simp
    have "?n r k gs = 0" if "k < length features" for r k
    proof -
      from that past dead' have "\<forall>g' \<in> set gs. \<not> overlapping valid_bcs (features ! k) g'"
        by simp
      then have "filter (\<lambda>g. overlapping valid_bcs (features ! k) g \<and>
                    bcm (snd (snd (snd g))) = Some r) gs = []"
        by (simp add: filter_empty_conv)
      then show ?thesis by simp
    qed
    with cells split
    have "\<forall>r < n_bcs. \<forall>k < length features. cell tbl' r k = cell tbl r k + ?n r k frags"
      by simp
    moreover from run Break
    have "scan features valid_bcs cm bcm idx tbl (row # rows) = Inr (Break, idx', tbl')"
      by simp
    ultimately show ?thesis using ok' by blast
  next
    case Continue
    with pi Cons.prems(4) have in_range: "idx' < length features" by simp
    from dead' in_range
    have d: "\<forall>k < idx'. \<forall>g' \<in> set gs. \<not> overlapping valid_bcs (features ! k) g'" by simp
    from Cons.IH [OF rest sorted_gs ok' in_range d] obtain c2 idx2 tbl2 where
      run2: "scan features valid_bcs cm bcm idx' tbl' rows = Inr (c2, idx2, tbl2)"
      and ok2: "table_ok n_bcs (length features) tbl2"
      and cells2: "\<forall>r < n_bcs. \<forall>k < length features. cell tbl2 r k = cell tbl' r k + ?n r k gs"
      by blast
    from cells cells2 split
    have "\<forall>r < n_bcs. \<forall>k < length features. cell tbl2 r k = cell tbl r k + ?n r k frags"
      by simp
    moreover from run Continue run2
    have "scan features valid_bcs cm bcm idx tbl (row # rows) = Inr (c2, idx2, tbl2)"
      by simp
    ultimately show ?thesis using ok2 by blast
  qed
qed

lemma sum_list_indicator:
  "i < n \<Longrightarrow> sum_list (map (\<lambda>r. if r = i then 1 else 0) [0..<n]) = (1::int)"
  by (simp add: interv_sum_list_conv_sum_set_nat)

lemma sum_over_rows:
  assumes "\<forall>g \<in> set frags. P g \<longrightarrow> (\<exists>i < n. f g = Some i)"
  shows "sum_list (map (\<lambda>r. int (length (filter (\<lambda>g. P g \<and> f g = Some r) frags))) [0..<n])
         = int (length (filter P frags))"
  using assms
proof (induction frags)
  case Nil
  show ?case by simp
next
  case (Cons g gs)
  let ?one = "\<lambda>r. if P g \<and> f g = Some r then 1 else (0::int)"
  let ?rest = "\<lambda>r. int (length (filter (\<lambda>g. P g \<and> f g = Some r) gs))"
  have "sum_list (map (\<lambda>r. int (length (filter (\<lambda>g. P g \<and> f g = Some r) (g # gs)))) [0..<n])
        = sum_list (map (\<lambda>r. ?one r + ?rest r) [0..<n])"
    by (rule arg_cong [where f = sum_list]) auto
  also have "\<dots> = sum_list (map ?one [0..<n]) + sum_list (map ?rest [0..<n])"
    by (rule sum_list_addf)
  also have "sum_list (map ?rest [0..<n]) = int (length (filter P gs))"
    using Cons by simp
  also have "sum_list (map ?one [0..<n]) = (if P g then 1 else 0)"
  proof (cases "P g")
    case False
    then show ?thesis by simp
  next
    case True
    with Cons.prems obtain i where i: "i < n" "f g = Some i" by auto
    then have "?one = (\<lambda>r. if r = i then 1 else 0)" using True by auto
    with sum_list_indicator [OF i(1)] True show ?thesis by simp
  qed
  finally show ?case by simp
qed

section \<open>Hit totals\<close>

text \<open>
  Where the totals are exact. The data lines are read with every line stripped, on a
  stream for which the one-time trim decision cannot matter, so that a barcode is the
  fourth field without its line end. When the feature list has every chromosome name in
  one block, is sorted inside a block, and no feature ends before both an earlier and a
  later feature of its chromosome end, and the fragments are sorted by chromosome number
  and start, the total of every column is the number of fragments that should hit the
  feature. The third condition is one that no caller of \<^verbatim>\<open>count\<close> establishes.
\<close>

lemma fragment_of_take4: "fragment_of (take 4 line_split) = fragment_of line_split"
  by (simp add: fragment_of_def split: sum.split)

lemma stripped_rows_fragments:
  assumes "trim_safe comment fragments"
  shows "map fragment_of (line_splits comment fragments)
         = map fragment_of (read_lines comment True (Some True) fragments)"
proof -
  have "map fragment_of rows = map fragment_of (map (take 4) rows)" for rows
    by (simp add: fragment_of_take4)
  then have "map fragment_of (read_lines comment True None fragments)
        = map fragment_of (map (take 4) (read_lines comment True None fragments))"
    and "map fragment_of (map (take 4) (read_lines comment True (Some True) fragments))
        = map fragment_of (read_lines comment True (Some True) fragments)"
    by simp_all
  with trim_safe_rows [OF assms] show ?thesis
    by (simp only: line_splits_def)
qed

lemma hit_totals_of_rows:
  assumes rows: "map fragment_of (line_splits comment fragments) = map Some frags"
    and fo: "features_ordered features" and so: "stops_bracketed features"
    and fro: "fragments_ordered (build_chrom_mapping features) frags"
  shows "\<exists>t. count fragments features valid_bcs fast comment = Inr t \<and>
             table_rows t = length valid_bcs \<and>
             (\<forall>j < length features.
                column_total t (length valid_bcs) j
                = int (length (filter (overlapping valid_bcs (features ! j)) frags)))"
proof (cases "features = []")
  case True
  have "3 < length line_split" if "line_split \<in> set (line_splits comment fragments)"
    for line_split
  proof -
    from that have "fragment_of line_split \<in> set (map fragment_of (line_splits comment fragments))"
      by simp
    with rows have "fragment_of line_split \<noteq> None" by auto
    then show ?thesis by (auto simp: fragment_of_def split: if_splits)
  qed
  then have "\<forall>line_split \<in> set (line_splits comment fragments). 3 < length line_split"
    by blast
  from scan_discards [OF _ this, of "build_chrom_mapping features" valid_bcs] True
  show ?thesis
    by (simp add: count_scan build_chrom_mapping_Nil table_ok_rows [OF new_table_ok])
next
  case False
  let ?cm = "build_chrom_mapping features" and ?bcm = "build_bc_mapping valid_bcs"
  let ?n = "length valid_bcs"
  from fo have ro: "ranks_ok ?cm features"
    by (simp add: features_ordered_def ranks_ok_build)
  from fo so have io: "intervals_ordered features" by (rule intervals_ordered_intro)
  have bcmv: "\<forall>bc \<in> set valid_bcs. \<exists>i < ?n. ?bcm bc = Some i"
    using build_bc_mapping_valid by blast
  from fro have sorted: "sorted_wrt (fragment_le ?cm) frags"
    by (simp add: fragments_ordered_def)
  from False have idx: "0 < length features" by simp
  from scan_fragments [OF ro io bcmv, of "line_splits comment fragments" frags
      "new_table fast ?n (length features)" 0, OF rows sorted new_table_ok idx]
  obtain c idx' t where
    run: "scan features valid_bcs ?cm ?bcm 0 (new_table fast ?n (length features))
            (line_splits comment fragments) = Inr (c, idx', t)"
    and ok: "table_ok ?n (length features) t"
    and cells: "\<forall>r < ?n. \<forall>k < length features.
        cell t r k = cell (new_table fast ?n (length features)) r k +
          int (length (filter (\<lambda>g. overlapping valid_bcs (features ! k) g \<and>
                                   ?bcm (snd (snd (snd g))) = Some r) frags))"
    by auto
  have total: "column_total t ?n j
               = int (length (filter (overlapping valid_bcs (features ! j)) frags))"
    if j: "j < length features" for j
  proof -
    let ?P = "overlapping valid_bcs (features ! j)"
    have eq: "map (\<lambda>r. cell t r j) [0..<?n]
          = map (\<lambda>r. int (length (filter (\<lambda>g. ?P g \<and> ?bcm (snd (snd (snd g))) = Some r) frags)))
              [0..<?n]"
      using cells j by (simp add: new_table_cell)
    have valid: "\<forall>g \<in> set frags. ?P g \<longrightarrow> (\<exists>i < ?n. ?bcm (snd (snd (snd g))) = Some i)"
    proof (intro ballI impI)
      fix g assume "g \<in> set frags" and pg: "?P g"
      obtain chrom start stop bc where "g = (chrom, start, stop, bc)" by (cases g)
      with pg have "snd (snd (snd g)) \<in> set valid_bcs" by simp
      with bcmv show "\<exists>i < ?n. ?bcm (snd (snd (snd g))) = Some i" by blast
    qed
    have "column_total t ?n j
          = sum_list (map (\<lambda>r. int (length (filter (\<lambda>g. ?P g \<and> ?bcm (snd (snd (snd g))) = Some r)
                                                frags))) [0..<?n])"
      unfolding column_total_def by (simp only: eq)
    also have "\<dots> = int (length (filter ?P frags))"
      using valid by (rule sum_over_rows)
    finally show ?thesis .
  qed
  from run have "count fragments features valid_bcs fast comment = Inr t"
    by (simp add: count_scan)
  with total table_ok_rows [OF ok] show ?thesis by blast
qed

lemma hit_totals_bracketed:
  assumes safe: "trim_safe comment fragments"
    and rows: "map fragment_of (read_lines comment True (Some True) fragments) = map Some frags"
    and fo: "features_ordered features" and so: "stops_bracketed features"
    and fro: "fragments_ordered (build_chrom_mapping features) frags"
  shows "\<exists>t. count fragments features valid_bcs fast comment = Inr t \<and>
             table_rows t = length valid_bcs \<and>
             (\<forall>j < length features.
                column_total t (length valid_bcs) j
                = int (length (filter (overlapping valid_bcs (features ! j)) frags)))"
proof -
  from stripped_rows_fragments [OF safe] rows
  have "map fragment_of (line_splits comment fragments) = map Some frags" by simp
  from hit_totals_of_rows [OF this fo so fro] show ?thesis .
qed

lemma hit_totals_bracketed_example:
  "count [''# fragments'',
          tsv_line [''chr1'', ''90'', ''105'', ''bc1''],
          tsv_line [''chr1'', ''145'', ''155'', ''bc2''],
          tsv_line [''chr1'', ''150'', ''160'', ''bcX''],
          tsv_line [''chr1'', ''158'', ''170'', ''bc1''],
          tsv_line [''chr1'', ''205'', ''220'', ''bc2''],
          tsv_line [''chrM'', ''1'', ''2'', ''bc1''],
          tsv_line [''chr2'', ''5'', ''50'', ''bc2'']]
     [(''chr1'', 100, 150), (''chr1'', 140, 160), (''chr1'', 155, 300), (''chr1'', 200, 210),
      (''chr2'', 10, 20)]
     [''bc1'', ''bc2''] True ''#''
   = Inr (Dense [[1, 1, 1, 0, 0], [1, 1, 2, 1, 1]]) \<and>
   column_total (Dense [[1, 1, 1, 0, 0], [1, 1, 2, 1, 1]]) (length [''bc1'', ''bc2'']) 2 = 3 \<and>
   int (length (filter
       (overlapping [''bc1'', ''bc2'']
          ([(''chr1'', 100, 150), (''chr1'', 140, 160), (''chr1'', 155, 300),
            (''chr1'', 200, 210), (''chr2'', 10, 20)] ! 2))
       [(''chr1'', 90, 105, ''bc1''), (''chr1'', 145, 155, ''bc2''),
        (''chr1'', 150, 160, ''bcX''), (''chr1'', 158, 170, ''bc1''),
        (''chr1'', 205, 220, ''bc2''), (''chrM'', 1, 2, ''bc1''),
        (''chr2'', 5, 50, ''bc2'')])) = 3"
proof -
  let ?fr = "[''# fragments'',
          tsv_line [''chr1'', ''90'', ''105'', ''bc1''],
          tsv_line [''chr1'', ''145'', ''155'', ''bc2''],
          tsv_line [''chr1'', ''150'', ''160'', ''bcX''],
          tsv_line [''chr1'', ''158'', ''170'', ''bc1''],
          tsv_line [''chr1'', ''205'', ''220'', ''bc2''],
          tsv_line [''chrM'', ''1'', ''2'', ''bc1''],
          tsv_line [''chr2'', ''5'', ''50'', ''bc2'']]"
  let ?fs = "[(''chr1'', 100::int, 150::int), (''chr1'', 140, 160), (''chr1'', 155, 300),
              (''chr1'', 200, 210), (''chr2'', 10, 20)]"
  let ?frags = "[(''chr1'', 90::int, 105::int, ''bc1''), (''chr1'', 145, 155, ''bc2''),
        (''chr1'', 150, 160, ''bcX''), (''chr1'', 158, 170, ''bc1''),
        (''chr1'', 205, 220, ''bc2''), (''chrM'', 1, 2, ''bc1''),
        (''chr2'', 5, 50, ''bc2'')]"
  let ?t = "Dense [[1, 1, 1, 0, 0], [1, 1, 2, 1, 1]]"
  have safe: "trim_safe ''#'' ?fr" by code_simp
  have rows: "map fragment_of (read_lines ''#'' True (Some True) ?fr) = map Some ?frags"
    by code_simp
  have fo: "features_ordered ?fs" by code_simp
  have so: "stops_bracketed ?fs" by code_simp
  have fro: "fragments_ordered (build_chrom_mapping ?fs) ?frags" by code_simp
  have c: "count ?fr ?fs [''bc1'', ''bc2''] True ''#'' = Inr ?t" by code_simp
  have j: "(2::nat) < length ?fs" by simp
  have n: "int (length (filter (overlapping [''bc1'', ''bc2''] (?fs ! 2)) ?frags)) = 3"
    by code_simp
  from hit_totals_bracketed [OF safe rows fo so fro, of "[''bc1'', ''bc2'']" True] c
  have "\<forall>j < length ?fs. column_total ?t (length [''bc1'', ''bc2'']) j
          = int (length (filter (overlapping [''bc1'', ''bc2''] (?fs ! j)) ?frags))"
    by simp
  with j have "column_total ?t (length [''bc1'', ''bc2'']) 2
          = int (length (filter (overlapping [''bc1'', ''bc2''] (?fs ! 2)) ?frags))"
    by blast
  with c n show ?thesis by simp
qed

text \<open>
  C1. The claim: for a feature list and a fragment stream in the required order, the
  total \<^verbatim>\<open>count\<close> records for a feature is the number of fragments with a valid
  barcode on the feature's chromosome whose closed interval meets the feature's. The code
  does not deliver it when a feature lies inside an earlier one. The features
  [100, 300], [110, 120], [130, 400] of one chromosome are sorted by start and stop, and
  the one fragment [200, 250], with a valid barcode, meets the first and the third. The
  cursor stays on the first feature; the follow-up loop, which runs only while
  \<^verbatim>\<open>is_overlapping\<close> holds, stops at the second feature, which ends before the
  fragment starts, and never tests the third: the returned row is 1, 0, 0 on both
  backends, so the third feature's total is 0 where one fragment overlaps it. On the
  cursor's own path a feature that ends before the fragment starts is skipped, not taken
  as the end of the search: without the enclosing first feature the same fragment gives
  the row 0, 1.
\<close>

theorem nested_feature_undercount:
  "features_ordered [(''chr1'', 100, 300), (''chr1'', 110, 120), (''chr1'', 130, 400)] \<and>
   map fragment_of (line_splits ''#'' [tsv_line [''chr1'', ''200'', ''250'', ''bc1'']])
     = [Some (''chr1'', 200, 250, ''bc1'')] \<and>
   fragments_ordered
     (build_chrom_mapping [(''chr1'', 100, 300), (''chr1'', 110, 120), (''chr1'', 130, 400)])
     [(''chr1'', 200, 250, ''bc1'')] \<and>
   int (length (filter (overlapping [''bc1''] (''chr1'', 130, 400))
     [(''chr1'', 200, 250, ''bc1'')])) = 1 \<and>
   count [tsv_line [''chr1'', ''200'', ''250'', ''bc1'']]
     [(''chr1'', 100, 300), (''chr1'', 110, 120), (''chr1'', 130, 400)] [''bc1''] True ''#''
     = Inr (Dense [[1, 0, 0]]) \<and>
   count [tsv_line [''chr1'', ''200'', ''250'', ''bc1'']]
     [(''chr1'', 100, 300), (''chr1'', 110, 120), (''chr1'', 130, 400)] [''bc1''] False ''#''
     = Inr (Sparse \<lparr>n_rows = 1, n_cols = 3, entries = [[(0, 1)]]\<rparr>) \<and>
   column_total (Dense [[1, 0, 0]]) (length [''bc1'']) 2 = 0 \<and>
   column_total (Sparse \<lparr>n_rows = 1, n_cols = 3, entries = [[(0, 1)]]\<rparr>) (length [''bc1'']) 2
     = 0 \<and>
   count [tsv_line [''chr1'', ''200'', ''250'', ''bc1'']]
     [(''chr1'', 110, 120), (''chr1'', 130, 400)] [''bc1''] True ''#''
     = Inr (Dense [[0, 1]])"
  by code_simp

theorem nested_feature_undercount_witness:
  "count [tsv_line [''chr1'', ''200'', ''250'', ''bc1'']]
     [(''chr1'', 100, 300), (''chr1'', 110, 120), (''chr1'', 130, 400)] [''bc1''] True ''#''
     = Inr (Dense [[1, 0, 0]]) \<and>
   column_total (Dense [[1, 0, 0]]) (length [''bc1'']) 2 = 0 \<and>
   int (length (filter (overlapping [''bc1''] (''chr1'', 130, 400))
     [(''chr1'', 200, 250, ''bc1'')])) = 1"
  using nested_feature_undercount by blast

end
